theory Spec2Isabelle
  imports Complex_Main "HOL-Library.Word" "HOL-Library.Stream" "HOL-Library.Multiset"
begin

section \<open>A genetic algorithm for the travelling salesman problem (ga.cpp)\<close>

text \<open>
  The embedding follows \<^verbatim>\<open>ga.cpp\<close> function by function.

  \<^item> \<^verbatim>\<open>unsigned int\<close> coordinates are 32-bit words, so the subtraction and the products
    of \<^verbatim>\<open>distanceBetweenCities\<close> wrap as they do in C++. Positions in a vector and city
    indices are natural numbers (they stay below the size of a vector).
  \<^item> \<^verbatim>\<open>double\<close> is idealised as \<open>real\<close>. The theorems below use only that the length
    is a function of the itinerary and the map and that \<open><\<close> on lengths is a linear
    order; no property of rounding enters.
  \<^item> The process-wide generator behind \<^verbatim>\<open>rand()\<close> is an explicit stream of draws that
    every operation takes and returns. \<^verbatim>\<open>RAND_MAX\<close> is a parameter.
  \<^item> Undefined behaviour (reading a vector out of range, dereferencing \<^verbatim>\<open>end()\<close>,
    \<^verbatim>\<open>%\<close> by zero) is a value of type \<open>error\<close>.
  \<^item> A loop that may run forever returns an \<open>option\<close>: \<open>None\<close> is not returning.
\<close>

subsection \<open>Errors and the random stream\<close>

datatype error = OutOfRange | DivByZero

type_synonym rng = "nat stream"

type_synonym u32 = "32 word"

text \<open>\<^verbatim>\<open>rand()\<close>: the next draw, and the stream after it.\<close>

definition rand :: "rng \<Rightarrow> nat \<times> rng" where
  "rand g = (shd g, stl g)"

text \<open>
  \<^verbatim>\<open>randomIndex(a, b)\<close> is \<^verbatim>\<open>(rand() % (b - a)) + a\<close> on \<^verbatim>\<open>unsigned int\<close>: the difference
  and the sum wrap, and a zero difference is a division by zero.
\<close>

definition randomIndex :: "u32 \<Rightarrow> u32 \<Rightarrow> rng \<Rightarrow> error + (u32 \<times> rng)" where
  "randomIndex a b g =
     (let (r, g1) = rand g in
      if b - a = 0 then Inl DivByZero
      else Inr ((word_of_nat r mod (b - a)) + a, g1))"

text \<open>\<^verbatim>\<open>randomDouble(a, b)\<close> is \<^verbatim>\<open>(rand() / RAND_MAX) * (b - a) + a\<close>.\<close>

definition randomDouble :: "nat \<Rightarrow> real \<Rightarrow> real \<Rightarrow> rng \<Rightarrow> real \<times> rng" where
  "randomDouble RAND_MAX a b g =
     (let (r, g1) = rand g in ((real r / real RAND_MAX) * (b - a) + a, g1))"

subsection \<open>City and Map\<close>

record City =
  x :: u32
  y :: u32

text \<open>The constructor \<^verbatim>\<open>City(width, height)\<close>: two draws, each reduced by \<^verbatim>\<open>%\<close>.\<close>

definition City_random :: "u32 \<Rightarrow> u32 \<Rightarrow> rng \<Rightarrow> error + (City \<times> rng)" where
  "City_random width height g =
     (let (r1, g1) = rand g in
      if width = 0 then Inl DivByZero
      else let (r2, g2) = rand g1 in
        if height = 0 then Inl DivByZero
        else Inr (\<lparr>x = word_of_nat r1 mod width, y = word_of_nat r2 mod height\<rparr>, g2))"

definition distanceBetweenCities :: "City \<Rightarrow> City \<Rightarrow> real" where
  "distanceBetweenCities a b =
     sqrt (real (unat ((x a - x b) * (x a - x b) + (y a - y b) * (y a - y b))))"

record Map =
  cities :: "City list"
  width :: u32
  height :: u32

text \<open>
  The loop of the constructor \<^verbatim>\<open>Map(w, h, n)\<close>: draw a city, keep it when it is new,
  until there are \<open>n\<close> cities. Nothing bounds the number of rounds.
\<close>

partial_function (option) Map_loop ::
  "u32 \<Rightarrow> u32 \<Rightarrow> nat \<Rightarrow> City list \<Rightarrow> rng \<Rightarrow> (error + (City list \<times> rng)) option" where
  "Map_loop w h n cs g =
     (if length cs < n then
        (case City_random w h g of
           Inl e \<Rightarrow> Some (Inl e)
         | Inr (city, g1) \<Rightarrow>
             if city \<notin> set cs then Map_loop w h n (cs @ [city]) g1
             else Map_loop w h n cs g1)
      else Some (Inr (cs, g)))"

definition Map_new :: "u32 \<Rightarrow> u32 \<Rightarrow> u32 \<Rightarrow> rng \<Rightarrow> (error + (Map \<times> rng)) option" where
  "Map_new w h n g =
     (case Map_loop w h (unat n) [] g of
        None \<Rightarrow> None
      | Some (Inl e) \<Rightarrow> Some (Inl e)
      | Some (Inr (cs, g1)) \<Rightarrow> Some (Inr (\<lparr>cities = cs, width = w, height = h\<rparr>, g1)))"

text \<open>\<^verbatim>\<open>Map::distance(i, j)\<close> reads the vector of cities at \<open>i\<close> and at \<open>j\<close>.\<close>

definition distance :: "Map \<Rightarrow> nat \<Rightarrow> nat \<Rightarrow> error + real" where
  "distance mp i j =
     (if i < length (cities mp) \<and> j < length (cities mp)
      then Inr (distanceBetweenCities (cities mp ! i) (cities mp ! j))
      else Inl OutOfRange)"

subsection \<open>Tour\<close>

text \<open>
  The loop of \<^verbatim>\<open>lengthOfItinerary\<close>, from position \<open>i\<close> on, with the running sum.
\<close>

function lengthOfItinerary_loop :: "nat list \<Rightarrow> Map \<Rightarrow> nat \<Rightarrow> real \<Rightarrow> error + real" where
  "lengthOfItinerary_loop itin mp i len =
     (if i < length itin then
        (case distance mp (itin ! (i - 1)) (itin ! i) of
           Inl e \<Rightarrow> Inl e
         | Inr d \<Rightarrow> lengthOfItinerary_loop itin mp (i + 1) (len + d))
      else Inr len)"
  by pat_completeness auto
termination
  by (relation "measure (\<lambda>(itin, mp, i, len). length itin - i)") auto

declare lengthOfItinerary_loop.simps [simp del]

definition lengthOfItinerary :: "nat list \<Rightarrow> Map \<Rightarrow> error + real" where
  "lengthOfItinerary itin mp =
     (if itin = [] then Inl OutOfRange
      else case distance mp (itin ! 0) (last itin) of
             Inl e \<Rightarrow> Inl e
           | Inr d \<Rightarrow> lengthOfItinerary_loop itin mp 1 d)"

record Tour =
  itinerary :: "nat list"
  length' :: real

text \<open>The constructor \<^verbatim>\<open>Tour(itinerary, map)\<close>.\<close>

definition Tour_of :: "nat list \<Rightarrow> Map \<Rightarrow> error + Tour" where
  "Tour_of itin mp =
     (case lengthOfItinerary itin mp of
        Inl e \<Rightarrow> Inl e
      | Inr l \<Rightarrow> Inr \<lparr>itinerary = itin, length' = l\<rparr>)"

subsection \<open>Library algorithms on vectors\<close>

text \<open>
  \<^verbatim>\<open>random_shuffle(first, last)\<close> is the library's: for every position \<open>i\<close> from the
  second on, it swaps the element at \<open>i\<close> with the one at \<^verbatim>\<open>rand() % (i + 1)\<close> (the loop
  of the GNU library). The theorems below use only that its result is a permutation
  of the range.
\<close>

definition iter_swap :: "nat \<Rightarrow> nat \<Rightarrow> 'a list \<Rightarrow> 'a list" where
  "iter_swap i j xs = xs[i := xs ! j, j := xs ! i]"

function random_shuffle_loop :: "nat \<Rightarrow> 'a list \<Rightarrow> rng \<Rightarrow> 'a list \<times> rng" where
  "random_shuffle_loop i xs g =
     (if i < length xs then
        (let (r, g1) = rand g; j = r mod (i + 1) in
         random_shuffle_loop (i + 1) (if i \<noteq> j then iter_swap i j xs else xs) g1)
      else (xs, g))"
  by pat_completeness auto
termination
  by (relation "measure (\<lambda>(i, xs, g). length xs - i)") (auto simp: iter_swap_def)

declare random_shuffle_loop.simps [simp del]

definition random_shuffle :: "'a list \<Rightarrow> rng \<Rightarrow> 'a list \<times> rng" where
  "random_shuffle xs g = (if xs = [] then (xs, g) else random_shuffle_loop 1 xs g)"

text \<open>\<^verbatim>\<open>reverse(begin() + i, begin() + j)\<close> and \<^verbatim>\<open>rotate(begin() + i, begin() + k, begin() + j)\<close>.\<close>

definition reverse_range :: "nat \<Rightarrow> nat \<Rightarrow> 'a list \<Rightarrow> 'a list" where
  "reverse_range i j xs = take i xs @ rev (take (j - i) (drop i xs)) @ drop j xs"

definition rotate_range :: "nat \<Rightarrow> nat \<Rightarrow> nat \<Rightarrow> 'a list \<Rightarrow> 'a list" where
  "rotate_range i k j xs =
     take i xs @ take (j - k) (drop k xs) @ take (k - i) (drop i xs) @ drop j xs"

subsection \<open>Random tours and mutation\<close>

text \<open>
  The constructor \<^verbatim>\<open>Tour(map)\<close>: the cities \<open>0, ..., n - 1\<close>, all but the first shuffled.
  On an empty map \<^verbatim>\<open>begin() + 1\<close> lies past \<^verbatim>\<open>end()\<close>.
\<close>

definition Tour_random :: "Map \<Rightarrow> rng \<Rightarrow> error + (Tour \<times> rng)" where
  "Tour_random mp g =
     (let xs = [0..<length (cities mp)] in
      if xs = [] then Inl OutOfRange
      else let (ys, g1) = random_shuffle (tl xs) g in
        (case Tour_of (hd xs # ys) mp of
           Inl e \<Rightarrow> Inl e
         | Inr t \<Rightarrow> Inr (t, g1)))"

text \<open>
  The \<^verbatim>\<open>while (true)\<close> loop of \<^verbatim>\<open>Tour::mutate\<close>: draw a kind of mutation; a rotation
  that has no room (\<^verbatim>\<open>j - i <= 2\<close>) draws again. The positions are checked against the
  vector where the source reads or writes it.
\<close>

partial_function (option) mutate_loop ::
  "u32 \<Rightarrow> u32 \<Rightarrow> nat list \<Rightarrow> rng \<Rightarrow> (error + (int \<times> nat list \<times> rng)) option" where
  "mutate_loop i j xs g =
     (if int (shd g) mod 3 = 0 then
        (if unat i < length xs \<and> unat j < length xs
         then Some (Inr (0, iter_swap (unat i) (unat j) xs, stl g))
         else Some (Inl OutOfRange))
      else if int (shd g) mod 3 = 1 then
        (if unat i \<le> unat j + 1 \<and> unat j + 1 \<le> length xs
         then Some (Inr (1, reverse_range (unat i) (unat j + 1) xs, stl g))
         else Some (Inl OutOfRange))
      else if j - i > 2 then
        (case randomIndex (i + 1) j (stl g) of
           Inl e \<Rightarrow> Some (Inl e)
         | Inr (k, g2) \<Rightarrow>
             if unat i \<le> unat k \<and> unat k \<le> unat j + 1 \<and> unat j + 1 \<le> length xs
             then Some (Inr (2, rotate_range (unat i) (unat k) (unat j + 1) xs, g2))
             else Some (Inl OutOfRange))
      else mutate_loop i j xs (stl g))"

text \<open>
  \<^verbatim>\<open>Tour::mutate(p, map)\<close> returns the kind of mutation (\<open>-1\<close> for none), the tour and
  the stream.
\<close>

definition mutate :: "nat \<Rightarrow> real \<Rightarrow> Map \<Rightarrow> Tour \<Rightarrow> rng \<Rightarrow> (error + (int \<times> Tour \<times> rng)) option" where
  "mutate RAND_MAX p mp t g =
     (let (d, g1) = randomDouble RAND_MAX 0 1 g in
      if d > p then Some (Inr (- 1, t, g1))
      else
        (case randomIndex 1 (word_of_nat (length (itinerary t)) - 1) g1 of
           Inl e \<Rightarrow> Some (Inl e)
         | Inr (i, g2) \<Rightarrow>
        (case randomIndex (i + 1) (word_of_nat (length (itinerary t))) g2 of
           Inl e \<Rightarrow> Some (Inl e)
         | Inr (j, g3) \<Rightarrow>
        (case mutate_loop i j (itinerary t) g3 of
           None \<Rightarrow> None
         | Some (Inl e) \<Rightarrow> Some (Inl e)
         | Some (Inr (mutation, itin, g4)) \<Rightarrow>
        (case lengthOfItinerary itin mp of
           Inl e \<Rightarrow> Some (Inl e)
         | Inr l \<Rightarrow> Some (Inr (mutation, \<lparr>itinerary = itin, length' = l\<rparr>, g4)))))))"

subsection \<open>Crossover\<close>

text \<open>
  The inner loops of \<^verbatim>\<open>sex\<close>: advance the cursor while the city under it is already in
  the itinerary. Reading the parent at its size is out of range.
\<close>

function scan :: "nat list \<Rightarrow> nat list \<Rightarrow> nat \<Rightarrow> error + nat" where
  "scan itin a i =
     (if i < length a then
        (if a ! i \<in> set itin then scan itin a (i + 1) else Inr i)
      else Inl OutOfRange)"
  by pat_completeness auto
termination
  by (relation "measure (\<lambda>(itin, a, i). length a - i)") auto

declare scan.simps [simp del]

text \<open>One round of the outer loop, on the state \<open>(i, j, itinerary)\<close>.\<close>

definition sex_step ::
  "nat list \<Rightarrow> nat list \<Rightarrow> Map \<Rightarrow> nat \<times> nat \<times> nat list \<Rightarrow> error + (nat \<times> nat \<times> nat list)" where
  "sex_step a b mp s =
     (case s of (i0, j0, itin) \<Rightarrow>
     (case scan itin a i0 of Inl e \<Rightarrow> Inl e | Inr i \<Rightarrow>
     (case scan itin b j0 of Inl e \<Rightarrow> Inl e | Inr j \<Rightarrow>
        if i = length a then
          (if j < length b then Inr (i, j + 1, itin @ [b ! j]) else Inl OutOfRange)
        else if j = length b then
          (if i < length a then Inr (i + 1, j, itin @ [a ! i]) else Inl OutOfRange)
        else
          (case distance mp (last itin) (a ! i) of Inl e \<Rightarrow> Inl e | Inr da \<Rightarrow>
          (case distance mp (last itin) (b ! j) of Inl e \<Rightarrow> Inl e | Inr db \<Rightarrow>
             if da < db then Inr (i + 1, j, itin @ [a ! i])
             else Inr (i, j + 1, itin @ [b ! j]))))))"

text \<open>A round appends one city; the outer loop terminates for this reason.\<close>

lemma sex_step_length:
  "sex_step a b mp (i, j, itin) = Inr (i', j', itin') \<Longrightarrow> length itin' = Suc (length itin)"
  by (auto simp: sex_step_def split: sum.splits if_splits)

function sex_loop ::
  "nat list \<Rightarrow> nat list \<Rightarrow> Map \<Rightarrow> nat \<times> nat \<times> nat list \<Rightarrow> error + nat list" where
  "sex_loop a b mp (i, j, itin) =
     (if length itin < length (cities mp) then
        (case sex_step a b mp (i, j, itin) of
           Inl e \<Rightarrow> Inl e
         | Inr s \<Rightarrow> sex_loop a b mp s)
      else Inr itin)"
  by pat_completeness auto
termination
  by (relation "measure (\<lambda>(a, b, mp, i, j, itin). length (cities mp) - length itin)")
     (auto dest!: sex_step_length)

declare sex_loop.simps [simp del]

definition sex :: "Tour \<Rightarrow> Tour \<Rightarrow> Map \<Rightarrow> error + Tour" where
  "sex a b mp =
     (case sex_loop (itinerary a) (itinerary b) mp (1, 1, [0]) of
        Inl e \<Rightarrow> Inl e
      | Inr itin \<Rightarrow> Tour_of itin mp)"

subsection \<open>Population\<close>

text \<open>\<^verbatim>\<open>operator <\<close> on tours: the longer tour is the smaller one.\<close>

definition Tour_less :: "Tour \<Rightarrow> Tour \<Rightarrow> bool" where
  "Tour_less a b = (length' a > length' b)"

text \<open>
  \<^verbatim>\<open>max_element(first, last)\<close> is the library's: the position of the first greatest
  element of the range, and \<open>last'\<close> when the range is empty. A range is given with
  \<open>first \<le> last'\<close>.
\<close>

function max_element_loop :: "Tour list \<Rightarrow> nat \<Rightarrow> nat \<Rightarrow> nat \<Rightarrow> nat" where
  "max_element_loop ts largest first last' =
     (if first < last' then
        max_element_loop ts (if Tour_less (ts ! largest) (ts ! first) then first else largest)
          (first + 1) last'
      else largest)"
  by pat_completeness auto
termination
  by (relation "measure (\<lambda>(ts, largest, first, last'). last' - first)") auto

declare max_element_loop.simps [simp del]

definition max_element :: "Tour list \<Rightarrow> nat \<Rightarrow> nat \<Rightarrow> nat" where
  "max_element ts first last' =
     (if first = last' then last' else max_element_loop ts first (first + 1) last')"

record Population =
  map' :: Map
  tours :: "Tour list"

text \<open>
  \<^verbatim>\<open>Population::findParent(depth)\<close> shuffles \<^verbatim>\<open>tours\<close> in place and returns a reference
  to an element of it: the result is the position referred to, with the shuffled
  vector. \<^verbatim>\<open>tours.begin() + depth\<close> must not lie past \<^verbatim>\<open>tours.end()\<close>, and the position
  found must hold an element.
\<close>

definition findParent :: "nat \<Rightarrow> Tour list \<Rightarrow> rng \<Rightarrow> error + (nat \<times> Tour list \<times> rng)" where
  "findParent depth ts g =
     (let (ts1, g1) = random_shuffle ts g in
      if depth > length ts1 then Inl OutOfRange
      else let k = max_element ts1 0 depth in
        if k < length ts1 then Inr (k, ts1, g1) else Inl OutOfRange)"

text \<open>\<^verbatim>\<open>Population::fittest()\<close>.\<close>

definition fittest :: "Population \<Rightarrow> error + Tour" where
  "fittest pop =
     (let k = max_element (tours pop) 0 (length (tours pop)) in
      if k < length (tours pop) then Inr (tours pop ! k) else Inl OutOfRange)"

text \<open>
  Shuffling keeps the size of the vector; the first loop of \<^verbatim>\<open>evolve\<close> terminates for this
  reason.
\<close>

lemma length_random_shuffle_loop:
  "length (fst (random_shuffle_loop i xs g)) = length xs"
proof (induction i xs g rule: random_shuffle_loop.induct)
  case (1 i xs g)
  show ?case
  proof (cases "i < length xs")
    case True
    obtain r g1 where rg: "rand g = (r, g1)" by (cases "rand g")
    from True rg "1.IH" [of "(r, g1)" r g1 "r mod (i + 1)"] show ?thesis
      by (subst random_shuffle_loop.simps) (auto simp: iter_swap_def Let_def split: if_splits)
  next
    case False
    then show ?thesis by (subst random_shuffle_loop.simps) simp
  qed
qed

lemma length_random_shuffle: "length (fst (random_shuffle xs g)) = length xs"
  by (simp add: random_shuffle_def length_random_shuffle_loop)

lemma findParent_length:
  "findParent depth ts g = Inr (k, ts1, g1) \<Longrightarrow> length ts1 = length ts \<and> k < length ts1"
  using length_random_shuffle [of ts g]
  by (auto simp: findParent_def Let_def split: prod.splits if_splits)

text \<open>
  The first loop of \<^verbatim>\<open>Population::evolve\<close>. The parents \<open>a\<close> and \<open>b\<close> are references into
  \<^verbatim>\<open>tours\<close>; they are read after both calls of \<^verbatim>\<open>findParent\<close>, in the vector that the
  second call leaves. \<^verbatim>\<open>a != b\<close> is the comparison of vectors, that is, of itineraries.
\<close>

function evolve_loop ::
  "nat \<Rightarrow> Map \<Rightarrow> Tour list \<Rightarrow> Tour list \<Rightarrow> rng \<Rightarrow> error + (Tour list \<times> Tour list \<times> rng)" where
  "evolve_loop depth mp ts children g =
     (if length children < length ts then
        (case findParent depth ts g of Inl e \<Rightarrow> Inl e | Inr (a, ts1, g1) \<Rightarrow>
        (case findParent depth ts1 g1 of Inl e \<Rightarrow> Inl e | Inr (b, ts2, g2) \<Rightarrow>
           if itinerary (ts2 ! a) \<noteq> itinerary (ts2 ! b) then
             (case sex (ts2 ! a) (ts2 ! b) mp of
                Inl e \<Rightarrow> Inl e
              | Inr child \<Rightarrow> evolve_loop depth mp ts2 (children @ [child]) g2)
           else evolve_loop depth mp ts2 (children @ [ts2 ! a]) g2))
      else Inr (ts, children, g))"
  by pat_completeness auto
termination
  by (relation "measure (\<lambda>(depth, mp, ts, children, g). length ts - length children)")
     (auto dest!: findParent_length)

declare evolve_loop.simps [simp del]

text \<open>The second loop of \<^verbatim>\<open>Population::evolve\<close>: mutate the children from position \<open>i\<close> on.\<close>

function mutate_children ::
  "nat \<Rightarrow> real \<Rightarrow> Map \<Rightarrow> nat \<Rightarrow> Tour list \<Rightarrow> rng \<Rightarrow> (error + (Tour list \<times> rng)) option" where
  "mutate_children RAND_MAX p mp i children g =
     (if i < length children then
        (case mutate RAND_MAX p mp (children ! i) g of
           None \<Rightarrow> None
         | Some (Inl e) \<Rightarrow> Some (Inl e)
         | Some (Inr (k, t, g1)) \<Rightarrow> mutate_children RAND_MAX p mp (i + 1) (children[i := t]) g1)
      else Some (Inr (children, g)))"
  by pat_completeness auto
termination
  by (relation "measure (\<lambda>(RAND_MAX, p, mp, i, children, g). length children - i)") auto

declare mutate_children.simps [simp del]

text \<open>\<^verbatim>\<open>Population::evolve(p_mutate, depth)\<close>.\<close>

definition evolve ::
  "nat \<Rightarrow> real \<Rightarrow> nat \<Rightarrow> Population \<Rightarrow> rng \<Rightarrow> (error + (Population \<times> rng)) option" where
  "evolve RAND_MAX p_mutate depth pop g =
     (case fittest pop of Inl e \<Rightarrow> Some (Inl e) | Inr f \<Rightarrow>
     (case evolve_loop depth (map' pop) (tours pop) [f] g of
        Inl e \<Rightarrow> Some (Inl e)
      | Inr (ts, children, g1) \<Rightarrow>
     (case mutate_children RAND_MAX p_mutate (map' pop) 1 children g1 of
        None \<Rightarrow> None
      | Some (Inl e) \<Rightarrow> Some (Inl e)
      | Some (Inr (children', g2)) \<Rightarrow> Some (Inr (pop\<lparr>tours := children'\<rparr>, g2)))))"

text \<open>
  The constructor \<^verbatim>\<open>Population(width, height, n_cities, n_tours)\<close>: the map, then random
  tours until there are \<open>n_tours\<close> of them.
\<close>

function Population_loop :: "Map \<Rightarrow> nat \<Rightarrow> Tour list \<Rightarrow> rng \<Rightarrow> error + (Tour list \<times> rng)" where
  "Population_loop mp n_tours ts g =
     (if length ts < n_tours then
        (case Tour_random mp g of
           Inl e \<Rightarrow> Inl e
         | Inr (t, g1) \<Rightarrow> Population_loop mp n_tours (ts @ [t]) g1)
      else Inr (ts, g))"
  by pat_completeness auto
termination
  by (relation "measure (\<lambda>(mp, n_tours, ts, g). n_tours - length ts)") auto

declare Population_loop.simps [simp del]

definition Population_new ::
  "u32 \<Rightarrow> u32 \<Rightarrow> u32 \<Rightarrow> u32 \<Rightarrow> rng \<Rightarrow> (error + (Population \<times> rng)) option" where
  "Population_new w h n_cities n_tours g =
     (case Map_new w h n_cities g of
        None \<Rightarrow> None
      | Some (Inl e) \<Rightarrow> Some (Inl e)
      | Some (Inr (mp, g1)) \<Rightarrow>
          (case Population_loop mp (unat n_tours) [] g1 of
             Inl e \<Rightarrow> Some (Inl e)
           | Inr (ts, g2) \<Rightarrow> Some (Inr (\<lparr>map' = mp, tours = ts\<rparr>, g2))))"

subsection \<open>Predicates of the statements\<close>

text \<open>
  An itinerary over a map of \<open>n\<close> cities is valid when it is a permutation of
  \<open>0, ..., n - 1\<close> that starts at city \<open>0\<close>, the first element that all tours share.
\<close>

definition valid_itinerary :: "Map \<Rightarrow> nat list \<Rightarrow> bool" where
  "valid_itinerary mp a = (mset a = mset [0..<length (cities mp)] \<and> a \<noteq> [] \<and> a ! 0 = 0)"

text \<open>
  The states \<open>(i, j, itinerary)\<close> that the outer loop of \<^verbatim>\<open>sex\<close> has at the head of a round.
\<close>

inductive sex_reach :: "nat list \<Rightarrow> nat list \<Rightarrow> Map \<Rightarrow> nat \<times> nat \<times> nat list \<Rightarrow> bool"
  for a b mp where
  start: "sex_reach a b mp (1, 1, [0])"
| round: "sex_reach a b mp s \<Longrightarrow> length (snd (snd s)) < length (cities mp) \<Longrightarrow>
          sex_step a b mp s = Inr s' \<Longrightarrow> sex_reach a b mp s'"

code_pred sex_reach .

text \<open>
  The invariant of that loop: the itinerary starts at city 0 and holds distinct cities of
  the map, among them every city that a cursor has passed.
\<close>

definition sex_inv :: "nat \<Rightarrow> nat list \<Rightarrow> nat list \<Rightarrow> nat \<times> nat \<times> nat list \<Rightarrow> bool" where
  "sex_inv n a b s =
     (case s of (i, j, itin) \<Rightarrow>
        itin \<noteq> [] \<and> itin ! 0 = 0 \<and> distinct itin \<and> (\<forall>c\<in>set itin. c < n) \<and>
        set (take i a) \<subseteq> set itin \<and> set (take j b) \<subseteq> set itin)"

text \<open>
  What a result \<open>r\<close> of the loop of the constructor of \<open>Map\<close> satisfies when the loop starts
  from distinct cities \<open>cs\<close> inside the box.
\<close>

definition Map_post ::
  "u32 \<Rightarrow> u32 \<Rightarrow> nat \<Rightarrow> City list \<Rightarrow> (error + (City list \<times> rng)) \<Rightarrow> bool" where
  "Map_post w h n cs r =
     (distinct cs \<longrightarrow> (\<forall>c\<in>set cs. x c < w \<and> y c < h) \<longrightarrow> length cs \<le> n \<longrightarrow>
        (case r of
           Inl e \<Rightarrow> e = DivByZero \<and> (w = 0 \<or> h = 0)
         | Inr (cs', g') \<Rightarrow>
             length cs' = n \<and> distinct cs' \<and> (\<forall>c\<in>set cs'. x c < w \<and> y c < h)))"

text \<open>
  A population is well formed when it holds at least one tour, its map has at least three
  cities (a mutation needs two positions after the first) and fewer than \<open>2^32\<close> (sizes
  are passed as \<^verbatim>\<open>unsigned int\<close>), and every tour is valid over the map.
\<close>

definition wf_population :: "Population \<Rightarrow> bool" where
  "wf_population pop =
     (tours pop \<noteq> [] \<and> 3 \<le> length (cities (map' pop)) \<and>
      length (cities (map' pop)) < 2 ^ 32 \<and>
      (\<forall>t\<in>set (tours pop). valid_itinerary (map' pop) (itinerary t)))"

text \<open>
  The loop of \<^verbatim>\<open>Tour::mutate\<close> draws again as long as the draws are 2 modulo 3 and the
  rotation has no room. A stream is fair when, from every position on, some later draw
  is not 2 modulo 3.
\<close>

definition fair_draws :: "rng \<Rightarrow> bool" where
  "fair_draws g = (\<forall>k. \<exists>m. (g !! (k + m)) mod 3 \<noteq> 2)"

subsection \<open>Sample data\<close>

text \<open>
  Four cities on a line, one unit apart, and the two tours over them that differ in the
  order of the two inner cities; \<open>[0, 1, 2, 3]\<close> has length 6 and \<open>[0, 2, 1, 3]\<close> has
  length 8.
\<close>

definition line_map :: Map where
  "line_map =
     \<lparr>cities = [\<lparr>x = 0, y = 0\<rparr>, \<lparr>x = 1, y = 0\<rparr>, \<lparr>x = 2, y = 0\<rparr>, \<lparr>x = 3, y = 0\<rparr>],
      width = 4, height = 1\<rparr>"

definition tour_A :: Tour where
  "tour_A = \<lparr>itinerary = [0, 1, 2, 3], length' = 6\<rparr>"

definition tour_B :: Tour where
  "tour_B = \<lparr>itinerary = [0, 2, 1, 3], length' = 8\<rparr>"

definition line_population :: Population where
  "line_population = \<lparr>map' = line_map, tours = [tour_B, tour_A]\<rparr>"

text \<open>
  Three cities at the corners \<open>(0,0)\<close>, \<open>(1,0)\<close>, \<open>(0,1)\<close>: the second and the third are both
  at distance 1 from the first.
\<close>

definition corner_map :: Map where
  "corner_map =
     \<lparr>cities = [\<lparr>x = 0, y = 0\<rparr>, \<lparr>x = 1, y = 0\<rparr>, \<lparr>x = 0, y = 1\<rparr>], width = 2, height = 2\<rparr>"

section \<open>Properties\<close>

text \<open>
  The statements carry the numbers of the claims of the specification (C1 to C10). A
  statement that holds of the code is followed by an instance at the sample data; where
  the code differs from the specification, the run that shows the difference is
  evaluated.
\<close>

subsection \<open>Shuffling permutes\<close>

lemma mset_iter_swap:
  "i < length xs \<Longrightarrow> j < length xs \<Longrightarrow> mset (iter_swap i j xs) = mset xs"
  unfolding iter_swap_def by (simp add: mset_swap)

lemma mset_random_shuffle_loop:
  "mset (fst (random_shuffle_loop i xs g)) = mset xs"
proof (induction i xs g rule: random_shuffle_loop.induct)
  case (1 i xs g)
  show ?case
  proof (cases "i < length xs")
    case True
    obtain r g1 where rg: "rand g = (r, g1)" by (cases "rand g")
    have "r mod (i + 1) < i + 1" by simp
    with True have j: "r mod (i + 1) < length xs" by linarith
    from True rg j "1.IH" [of "(r, g1)" r g1 "r mod (i + 1)"] show ?thesis
      by (subst random_shuffle_loop.simps) (auto simp: Let_def mset_iter_swap split: if_splits)
  next
    case False
    then show ?thesis by (subst random_shuffle_loop.simps) simp
  qed
qed

lemma mset_random_shuffle: "mset (fst (random_shuffle xs g)) = mset xs"
  by (simp add: random_shuffle_def mset_random_shuffle_loop)

subsection \<open>The greatest element is a shortest tour\<close>

lemma max_element_loop_least:
  "largest < first \<Longrightarrow> first \<le> last' \<Longrightarrow>
   (\<forall>i<first. length' (ts ! largest) \<le> length' (ts ! i)) \<Longrightarrow>
   max_element_loop ts largest first last' < last' \<and>
   (\<forall>i<last'. length' (ts ! max_element_loop ts largest first last') \<le> length' (ts ! i))"
proof (induction ts largest first last' rule: max_element_loop.induct)
  case (1 ts largest first last')
  show ?case
  proof (cases "first < last'")
    case True
    let ?l = "if Tour_less (ts ! largest) (ts ! first) then first else largest"
    have a: "?l < first + 1" using "1.prems" by simp
    have b: "\<forall>i<first + 1. length' (ts ! ?l) \<le> length' (ts ! i)"
      using "1.prems" by (auto simp: Tour_less_def less_Suc_eq)
    from "1.IH" [OF True a _ b] True show ?thesis
      by (subst (1 2) max_element_loop.simps) simp
  next
    case False
    with "1.prems" show ?thesis
      by (subst (1 2) max_element_loop.simps) simp
  qed
qed

lemma max_element_least:
  "0 < d \<Longrightarrow>
   max_element ts 0 d < d \<and> (\<forall>i<d. length' (ts ! max_element ts 0 d) \<le> length' (ts ! i))"
  using max_element_loop_least [of 0 1 d ts] by (simp add: max_element_def)

lemma fittest_least:
  "tours pop \<noteq> [] \<Longrightarrow>
   \<exists>f. fittest pop = Inr f \<and> f \<in> set (tours pop) \<and>
       (\<forall>t\<in>set (tours pop). length' f \<le> length' t)"
  using max_element_least [of "length (tours pop)" "tours pop"]
  by (auto simp: fittest_def Let_def in_set_conv_nth)

lemma findParent_full:
  assumes "ts \<noteq> []"
  shows "\<exists>k ts1 g1. findParent (length ts) ts g = Inr (k, ts1, g1) \<and> mset ts1 = mset ts \<and>
           k < length ts1 \<and> (\<forall>t\<in>set ts. length' (ts1 ! k) \<le> length' t)"
proof -
  obtain ts1 g1 where sh: "random_shuffle ts g = (ts1, g1)" by (cases "random_shuffle ts g")
  have m: "mset ts1 = mset ts" using mset_random_shuffle [of ts g] sh by simp
  then have l: "length ts1 = length ts" by (metis size_mset)
  have s: "set ts1 = set ts" using m by (metis set_mset_mset)
  from assms l have pos: "0 < length ts" by simp
  note me = max_element_least [OF pos, of ts1]
  have "\<forall>t\<in>set ts. length' (ts1 ! max_element ts1 0 (length ts)) \<le> length' t"
    using me l s by (metis in_set_conv_nth)
  with sh m l me show ?thesis
    by (simp add: findParent_def)
qed

text \<open>
  C8. In a population that holds at least one tour, tournament selection with
  \<open>depth = n_tours\<close> returns, for every stream of draws, a position of the shuffled
  collection; the tour there is a tour of the population, its length is minimal over
  the whole collection, and it equals the length of \<open>fittest()\<close>.
\<close>

theorem findParent_full_depth_is_fittest:
  assumes "tours pop \<noteq> []"
  shows "\<exists>k ts1 g1 f. findParent (length (tours pop)) (tours pop) g = Inr (k, ts1, g1) \<and>
           mset ts1 = mset (tours pop) \<and> k < length ts1 \<and> ts1 ! k \<in> set (tours pop) \<and>
           (\<forall>t\<in>set (tours pop). length' (ts1 ! k) \<le> length' t) \<and>
           fittest pop = Inr f \<and> length' (ts1 ! k) = length' f"
proof -
  from findParent_full [OF assms, of g] obtain k ts1 g1 where
    fp: "findParent (length (tours pop)) (tours pop) g = Inr (k, ts1, g1)" and
    m: "mset ts1 = mset (tours pop)" and k: "k < length ts1" and
    least: "\<forall>t\<in>set (tours pop). length' (ts1 ! k) \<le> length' t"
    by blast
  from m have s: "set ts1 = set (tours pop)" by (metis set_mset_mset)
  with k have mem: "ts1 ! k \<in> set (tours pop)" by (metis nth_mem)
  from fittest_least [OF assms] obtain f where
    f: "fittest pop = Inr f" "f \<in> set (tours pop)"
       "\<forall>t\<in>set (tours pop). length' f \<le> length' t"
    by blast
  from least f(2) have "length' (ts1 ! k) \<le> length' f" by blast
  moreover from f(3) mem have "length' f \<le> length' (ts1 ! k)" by blast
  ultimately have "length' (ts1 ! k) = length' f" by simp
  with fp m k mem least f(1) show ?thesis by blast
qed

theorem findParent_full_depth_is_fittest_witness:
  "tours line_population \<noteq> [] \<and>
   findParent (length (tours line_population)) (tours line_population) (sconst 0)
     = Inr (0, [tour_A, tour_B], sconst 0) \<and>
   fittest line_population = Inr tour_A \<and>
   [tour_A, tour_B] ! 0 \<in> set (tours line_population) \<and>
   length' ([tour_A, tour_B] ! 0) \<le> length' tour_B \<and>
   length' ([tour_A, tour_B] ! 0) = length' tour_A"
proof -
  have h: "tours line_population \<noteq> []"
    by (simp add: line_population_def)
  have e: "findParent (length (tours line_population)) (tours line_population) (sconst 0)
             = Inr (0, [tour_A, tour_B], sconst 0)"
    by (simp add: line_population_def findParent_def random_shuffle_def
        random_shuffle_loop.simps rand_def iter_swap_def max_element_def
        max_element_loop.simps Tour_less_def tour_A_def tour_B_def)
  have f: "fittest line_population = Inr tour_A"
    by (simp add: line_population_def fittest_def max_element_def max_element_loop.simps
        Tour_less_def tour_A_def tour_B_def)
  have b: "tour_B \<in> set (tours line_population)"
    by (simp add: line_population_def)
  from findParent_full_depth_is_fittest [OF h, of "sconst 0"] e f b
  have "[tour_A, tour_B] ! 0 \<in> set (tours line_population) \<and>
        length' ([tour_A, tour_B] ! 0) \<le> length' tour_B \<and>
        length' ([tour_A, tour_B] ! 0) = length' tour_A"
    by force
  with h e f show ?thesis by blast
qed

subsection \<open>Crossover\<close>

lemma permutation_of_upt:
  assumes "length xs = n" "distinct xs" "\<forall>c\<in>set xs. c < n"
  shows "mset xs = mset [0..<n]"
proof -
  have "set xs \<subseteq> {0..<n}" using assms(3) by auto
  moreover have "card (set xs) = card {0..<n}" using assms by (simp add: distinct_card)
  ultimately have "set xs = {0..<n}" by (simp add: card_subset_eq)
  with assms(2) show ?thesis
    by (metis distinct_upt set_upt set_eq_iff_mset_eq_distinct)
qed

lemma valid_itineraryI:
  assumes "length a = length (cities mp)" "distinct a" "\<forall>c\<in>set a. c < length (cities mp)"
    and "a \<noteq> []" "a ! 0 = 0"
  shows "valid_itinerary mp a"
  using permutation_of_upt [OF assms(1,2,3)] assms(4,5) by (simp add: valid_itinerary_def)

lemma line_tours_valid:
  "valid_itinerary line_map (itinerary tour_A)" "valid_itinerary line_map (itinerary tour_B)"
  by (rule valid_itineraryI; simp add: tour_A_def tour_B_def line_map_def)+

lemma valid_itineraryD:
  assumes "valid_itinerary mp a"
  shows "length a = length (cities mp)" "distinct a" "set a = {0..<length (cities mp)}"
        "a \<noteq> []" "a ! 0 = 0"
proof -
  from assms have m: "mset a = mset [0..<length (cities mp)]"
    by (simp add: valid_itinerary_def)
  from m show "length a = length (cities mp)" by (metis size_mset length_upt diff_zero)
  from m show "distinct a" by (metis distinct_upt mset_eq_imp_distinct_iff)
  from m show "set a = {0..<length (cities mp)}" by (metis set_mset_mset set_upt)
  from assms show "a \<noteq> []" "a ! 0 = 0" by (simp_all add: valid_itinerary_def)
qed

lemma scan_finds:
  "\<exists>k. i \<le> k \<and> k < length a \<and> a ! k \<notin> set itin \<Longrightarrow>
   \<exists>i'. scan itin a i = Inr i' \<and> i \<le> i' \<and> i' < length a \<and> a ! i' \<notin> set itin \<and>
        (\<forall>k. i \<le> k \<and> k < i' \<longrightarrow> a ! k \<in> set itin)"
proof (induction itin a i rule: scan.induct)
  case (1 itin a i)
  from "1.prems" have il: "i < length a" by auto
  show ?case
  proof (cases "a ! i \<in> set itin")
    case False
    with il show ?thesis by (subst scan.simps) auto
  next
    case True
    with "1.prems" have "\<exists>k. i + 1 \<le> k \<and> k < length a \<and> a ! k \<notin> set itin"
      by (metis Suc_eq_plus1 Suc_leI le_neq_implies_less)
    from "1.IH" [OF il True this] obtain i' where
      s: "scan itin a (i + 1) = Inr i'" and b: "i + 1 \<le> i'" "i' < length a" "a ! i' \<notin> set itin"
      and m: "\<forall>k. i + 1 \<le> k \<and> k < i' \<longrightarrow> a ! k \<in> set itin"
      by blast
    have "\<forall>k. i \<le> k \<and> k < i' \<longrightarrow> a ! k \<in> set itin"
    proof (intro allI impI)
      fix k assume "i \<le> k \<and> k < i'"
      then show "a ! k \<in> set itin" using m True by (cases "k = i") auto
    qed
    with il True s b show ?thesis by (subst scan.simps) auto
  qed
qed

lemma unused_city:
  assumes "distinct a" "set a = {0..<n}" "length a = n"
    and "distinct itin" "\<forall>c\<in>set itin. c < n" "length itin < n" "set (take i a) \<subseteq> set itin"
  shows "\<exists>k. i \<le> k \<and> k < length a \<and> a ! k \<notin> set itin"
proof -
  have "card (set itin) < card (set a)"
    using assms by (simp add: distinct_card)
  moreover have "set itin \<subseteq> set a" using assms by auto
  ultimately have "set itin \<noteq> set a" by auto
  with \<open>set itin \<subseteq> set a\<close> obtain c where c: "c \<in> set a" "c \<notin> set itin" by blast
  then obtain k where k: "k < length a" "a ! k = c" by (metis in_set_conv_nth)
  have "i \<le> k"
  proof (rule ccontr)
    assume "\<not> i \<le> k"
    then have "k < i" by simp
    with k have "c \<in> set (take i a)" by (metis in_set_conv_nth length_take min_less_iff_conj nth_take)
    with assms(7) c(2) show False by blast
  qed
  with k c show ?thesis by blast
qed

lemma set_take_scanned:
  assumes "set (take i a) \<subseteq> S" "\<forall>k. i \<le> k \<and> k < i' \<longrightarrow> a ! k \<in> S" "i' \<le> length a"
  shows "set (take i' a) \<subseteq> S"
proof
  fix c assume "c \<in> set (take i' a)"
  then obtain k where k: "k < i'" "k < length a" "a ! k = c"
    by (metis in_set_conv_nth length_take min_less_iff_conj nth_take)
  show "c \<in> S"
  proof (cases "k < i")
    case True
    with k have "c \<in> set (take i a)" by (metis in_set_conv_nth length_take min_less_iff_conj nth_take)
    with assms(1) show ?thesis by blast
  next
    case False
    with k assms(2) show ?thesis by auto
  qed
qed

lemma sex_step_valid:
  assumes va: "valid_itinerary mp a" and vb: "valid_itinerary mp b"
    and inv: "sex_inv (length (cities mp)) a b (i, j, itin)"
    and lt: "length itin < length (cities mp)"
  shows "\<exists>i' j' da db.
      scan itin a i = Inr i' \<and> i' < length a \<and> a ! i' \<notin> set itin \<and>
      scan itin b j = Inr j' \<and> j' < length b \<and> b ! j' \<notin> set itin \<and>
      distance mp (last itin) (a ! i') = Inr da \<and>
      distance mp (last itin) (b ! j') = Inr db \<and>
      sex_step a b mp (i, j, itin) =
        Inr (if da < db then (i' + 1, j', itin @ [a ! i']) else (i', j' + 1, itin @ [b ! j'])) \<and>
      sex_inv (length (cities mp)) a b
        (if da < db then (i' + 1, j', itin @ [a ! i']) else (i', j' + 1, itin @ [b ! j']))"
proof -
  let ?n = "length (cities mp)"
  note a = valid_itineraryD [OF va] and b = valid_itineraryD [OF vb]
  from inv have ne: "itin \<noteq> []" and hd0: "itin ! 0 = 0" and di: "distinct itin"
    and bd: "\<forall>c\<in>set itin. c < ?n"
    and ta: "set (take i a) \<subseteq> set itin" and tb: "set (take j b) \<subseteq> set itin"
    by (simp_all add: sex_inv_def)
  from scan_finds [OF unused_city [OF a(2) a(3) a(1) di bd lt ta]] obtain i' where
    sa: "scan itin a i = Inr i'" and ia: "i \<le> i'" "i' < length a" "a ! i' \<notin> set itin"
    and ma: "\<forall>k. i \<le> k \<and> k < i' \<longrightarrow> a ! k \<in> set itin"
    by blast
  from scan_finds [OF unused_city [OF b(2) b(3) b(1) di bd lt tb]] obtain j' where
    sb: "scan itin b j = Inr j'" and jb: "j \<le> j'" "j' < length b" "b ! j' \<notin> set itin"
    and mb: "\<forall>k. j \<le> k \<and> k < j' \<longrightarrow> b ! k \<in> set itin"
    by blast
  from ne bd have l: "last itin < ?n" by simp
  from ia(2) a(3) have ca: "a ! i' < ?n" by (metis atLeastLessThan_iff nth_mem)
  from jb(2) b(3) have cb: "b ! j' < ?n" by (metis atLeastLessThan_iff nth_mem)
  define da where "da = distanceBetweenCities (cities mp ! last itin) (cities mp ! (a ! i'))"
  define db where "db = distanceBetweenCities (cities mp ! last itin) (cities mp ! (b ! j'))"
  have dA: "distance mp (last itin) (a ! i') = Inr da"
    using l ca by (simp add: distance_def da_def)
  have dB: "distance mp (last itin) (b ! j') = Inr db"
    using l cb by (simp add: distance_def db_def)
  have st: "sex_step a b mp (i, j, itin) =
        Inr (if da < db then (i' + 1, j', itin @ [a ! i']) else (i', j' + 1, itin @ [b ! j']))"
    using sa sb ia(2) jb(2) dA dB by (simp add: sex_step_def)
  have ta': "set (take i' a) \<subseteq> set itin"
    using set_take_scanned [OF ta ma] ia(2) by simp
  have tb': "set (take j' b) \<subseteq> set itin"
    using set_take_scanned [OF tb mb] jb(2) by simp
  have hd': "\<And>c. (itin @ [c]) ! 0 = 0" using ne hd0 by (simp add: nth_append)
  have inva: "sex_inv ?n a b (i' + 1, j', itin @ [a ! i'])"
    using ne hd' di bd ta' tb' ia ca by (auto simp: sex_inv_def take_Suc_conv_app_nth)
  have invb: "sex_inv ?n a b (i', j' + 1, itin @ [b ! j'])"
    using ne hd' di bd ta' tb' jb cb by (auto simp: sex_inv_def take_Suc_conv_app_nth)
  from sa ia sb jb dA dB st inva invb show ?thesis
    by (intro exI [of _ i'] exI [of _ j'] exI [of _ da] exI [of _ db]) simp
qed

lemma sex_inv_init:
  assumes "valid_itinerary mp a" "valid_itinerary mp b"
  shows "sex_inv (length (cities mp)) a b (1, 1, [0])"
proof -
  note a = valid_itineraryD [OF assms(1)] and b = valid_itineraryD [OF assms(2)]
  from a have "take 1 a = [0]" by (cases a) simp_all
  moreover from b have "take 1 b = [0]" by (cases b) simp_all
  moreover from a have "0 < length (cities mp)" by (cases a) auto
  ultimately show ?thesis by (simp add: sex_inv_def)
qed

lemma sex_loop_valid:
  assumes va: "valid_itinerary mp a" and vb: "valid_itinerary mp b"
  shows "sex_inv (length (cities mp)) a b s \<Longrightarrow> length (snd (snd s)) \<le> length (cities mp) \<Longrightarrow>
     \<exists>itin'. sex_loop a b mp s = Inr itin' \<and> length itin' = length (cities mp) \<and>
       distinct itin' \<and> (\<forall>c\<in>set itin'. c < length (cities mp)) \<and> itin' ! 0 = 0"
proof (induction "length (cities mp) - length (snd (snd s))" arbitrary: s)
  case 0
  obtain i j itin where s: "s = (i, j, itin)" by (cases s)
  with 0 have "length itin = length (cities mp)" by simp
  with 0(2) [unfolded s] show ?case
    unfolding s by (subst sex_loop.simps) (simp add: sex_inv_def)
next
  case (Suc m)
  obtain i j itin where s: "s = (i, j, itin)" by (cases s)
  with Suc(2) have lt: "length itin < length (cities mp)" by simp
  from sex_step_valid [OF va vb Suc(3) [unfolded s] lt] obtain s' where
    st: "sex_step a b mp (i, j, itin) = Inr s'" and inv': "sex_inv (length (cities mp)) a b s'"
    by metis
  obtain i' j' itin' where s': "s' = (i', j', itin')" by (cases s')
  from sex_step_length [OF st [unfolded s']] have len: "length itin' = Suc (length itin)" .
  with Suc(2) s have m: "m = length (cities mp) - length (snd (snd s'))"
    by (simp add: s')
  from len lt have le: "length (snd (snd s')) \<le> length (cities mp)" by (simp add: s')
  from Suc(1) [OF m inv' le] st lt show ?case
    unfolding s by (subst sex_loop.simps) simp
qed

lemma lengthOfItinerary_loop_defined:
  "\<forall>c\<in>set itin. c < length (cities mp) \<Longrightarrow> 0 < i \<Longrightarrow>
   \<exists>l. lengthOfItinerary_loop itin mp i len = Inr l"
proof (induction itin mp i len rule: lengthOfItinerary_loop.induct)
  case (1 itin mp i len)
  show ?case
  proof (cases "i < length itin")
    case False
    then show ?thesis by (subst lengthOfItinerary_loop.simps) simp
  next
    case True
    with "1.prems" have "itin ! (i - 1) < length (cities mp)" "itin ! i < length (cities mp)"
      by simp_all
    then obtain d where d: "distance mp (itin ! (i - 1)) (itin ! i) = Inr d"
      by (simp add: distance_def)
    from "1.IH" [OF True d "1.prems"(1)] True d show ?thesis
      by (subst lengthOfItinerary_loop.simps) simp
  qed
qed

lemma Tour_of_defined:
  assumes "itin \<noteq> []" "\<forall>c\<in>set itin. c < length (cities mp)"
  shows "\<exists>l. Tour_of itin mp = Inr \<lparr>itinerary = itin, length' = l\<rparr>"
proof -
  from assms have "itin ! 0 < length (cities mp)" "last itin < length (cities mp)"
    by simp_all
  then obtain d where d: "distance mp (itin ! 0) (last itin) = Inr d"
    by (simp add: distance_def)
  from lengthOfItinerary_loop_defined [OF assms(2), of 1 d] obtain l where
    "lengthOfItinerary_loop itin mp 1 d = Inr l" by auto
  with d assms(1) show ?thesis
    by (simp add: Tour_of_def lengthOfItinerary_def)
qed

lemma sex_defined:
  assumes "valid_itinerary mp (itinerary a)" "valid_itinerary mp (itinerary b)"
  shows "\<exists>child. sex a b mp = Inr child \<and> valid_itinerary mp (itinerary child)"
proof -
  from sex_loop_valid [OF assms sex_inv_init [OF assms]] valid_itineraryD(1,4) [OF assms(1)]
  obtain itin where
    lp: "sex_loop (itinerary a) (itinerary b) mp (1, 1, [0]) = Inr itin" and
    p: "length itin = length (cities mp)" "distinct itin" "\<forall>c\<in>set itin. c < length (cities mp)"
       "itin ! 0 = 0"
    by (cases "itinerary a") auto
  from p(1) valid_itineraryD(1,4) [OF assms(1)] have ne: "itin \<noteq> []" by auto
  from Tour_of_defined [OF ne p(3)] obtain l where
    t: "Tour_of itin mp = Inr \<lparr>itinerary = itin, length' = l\<rparr>" by blast
  from lp t have "sex a b mp = Inr \<lparr>itinerary = itin, length' = l\<rparr>"
    by (simp add: sex_def)
  moreover have "valid_itinerary mp itin"
    by (rule valid_itineraryI [OF p(1,2,3) ne p(4)])
  ultimately show ?thesis by simp
qed

text \<open>
  C6. For two parents whose itineraries are permutations of \<open>0, ..., n - 1\<close> that start at
  city 0, over a map of \<open>n\<close> cities, \<open>sex\<close> returns a child, and the itinerary of the child
  is a permutation of \<open>0, ..., n - 1\<close> (every city index appears exactly once in it) that
  starts at city 0.
\<close>

theorem sex_is_permutation:
  assumes "valid_itinerary mp (itinerary a)" "valid_itinerary mp (itinerary b)"
  shows "\<exists>child. sex a b mp = Inr child \<and>
           mset (itinerary child) = mset [0..<length (cities mp)] \<and> itinerary child ! 0 = 0"
proof -
  from sex_defined [OF assms] obtain child where
    "sex a b mp = Inr child" "valid_itinerary mp (itinerary child)"
    by blast
  then show ?thesis by (auto simp: valid_itinerary_def)
qed

theorem sex_is_permutation_witness:
  "valid_itinerary line_map (itinerary tour_B) \<and> valid_itinerary line_map (itinerary tour_A) \<and>
   sex tour_B tour_A line_map = Inr tour_A \<and>
   (\<exists>child. sex tour_B tour_A line_map = Inr child \<and>
      mset (itinerary child) = mset [0..<length (cities line_map)] \<and> itinerary child ! 0 = 0)"
proof -
  note a = line_tours_valid(1)
  note b = line_tours_valid(2)
  have e: "sex tour_B tour_A line_map = Inr tour_A"
    by (simp add: sex_def sex_loop.simps sex_step_def scan.simps Tour_of_def
        lengthOfItinerary_def lengthOfItinerary_loop.simps distance_def line_map_def
        distanceBetweenCities_def tour_A_def tour_B_def)
  from sex_is_permutation [OF b a] a b e show ?thesis
    by blast
qed

lemma sex_reach_inv:
  assumes va: "valid_itinerary mp a" and vb: "valid_itinerary mp b"
  shows "sex_reach a b mp s \<Longrightarrow> sex_inv (length (cities mp)) a b s"
proof (induction rule: sex_reach.induct)
  case start
  show ?case by (rule sex_inv_init [OF va vb])
next
  case (round s s')
  obtain i j itin where s: "s = (i, j, itin)" by (cases s)
  from round(2) s have lt: "length itin < length (cities mp)" by simp
  from sex_step_valid [OF va vb round(4) [unfolded s] lt] round(3) [unfolded s]
  show ?case by auto
qed

text \<open>
  C10. For two parents whose itineraries are permutations of \<open>0, ..., n - 1\<close> that start at
  city 0: at the head of every round that the loop of \<open>sex\<close> runs, the scan of each parent
  ends at a position strictly before the end of the parent, on a city that the itinerary
  does not hold yet; so no scan reads a parent at or past its size, the round does not
  fail, neither parent is exhausted (\<open>i' \<noteq> length a\<close> and \<open>j' \<noteq> length b\<close>), and \<open>sex\<close>
  returns a child.
\<close>

theorem sex_scans_in_range:
  assumes "valid_itinerary mp (itinerary a)" "valid_itinerary mp (itinerary b)"
    and "sex_reach (itinerary a) (itinerary b) mp (i, j, itin)"
    and "length itin < length (cities mp)"
  shows "\<exists>i' j' s'. scan itin (itinerary a) i = Inr i' \<and> i' < length (itinerary a) \<and>
           itinerary a ! i' \<notin> set itin \<and>
           scan itin (itinerary b) j = Inr j' \<and> j' < length (itinerary b) \<and>
           itinerary b ! j' \<notin> set itin \<and>
           sex_step (itinerary a) (itinerary b) mp (i, j, itin) = Inr s' \<and>
           (\<exists>child. sex a b mp = Inr child)"
proof -
  from sex_step_valid [OF assms(1,2) sex_reach_inv [OF assms(1,2,3)] assms(4)]
  obtain i' j' s' where
    "scan itin (itinerary a) i = Inr i'" "i' < length (itinerary a)"
    "itinerary a ! i' \<notin> set itin"
    "scan itin (itinerary b) j = Inr j'" "j' < length (itinerary b)"
    "itinerary b ! j' \<notin> set itin"
    "sex_step (itinerary a) (itinerary b) mp (i, j, itin) = Inr s'"
    by blast
  moreover from sex_defined [OF assms(1,2)] have "\<exists>child. sex a b mp = Inr child"
    by blast
  ultimately show ?thesis by blast
qed

theorem sex_scans_in_range_witness:
  "valid_itinerary line_map (itinerary tour_B) \<and> valid_itinerary line_map (itinerary tour_A) \<and>
   sex_reach (itinerary tour_B) (itinerary tour_A) line_map (1, 2, [0, 1]) \<and>
   length [0, 1 :: nat] < length (cities line_map) \<and>
   (\<exists>i' j' s'. scan [0, 1] (itinerary tour_B) 1 = Inr i' \<and> i' < length (itinerary tour_B) \<and>
      itinerary tour_B ! i' \<notin> set [0, 1] \<and>
      scan [0, 1] (itinerary tour_A) 2 = Inr j' \<and> j' < length (itinerary tour_A) \<and>
      itinerary tour_A ! j' \<notin> set [0, 1] \<and>
      sex_step (itinerary tour_B) (itinerary tour_A) line_map (1, 2, [0, 1]) = Inr s' \<and>
      (\<exists>child. sex tour_B tour_A line_map = Inr child))"
proof -
  note a = line_tours_valid(1)
  note b = line_tours_valid(2)
  have st: "sex_step (itinerary tour_B) (itinerary tour_A) line_map (1, 1, [0]) = Inr (1, 2, [0, 1])"
    by (simp add: sex_step_def scan.simps distance_def line_map_def distanceBetweenCities_def
        tour_A_def tour_B_def)
  have l0: "length (snd (snd (1 :: nat, 1 :: nat, [0 :: nat]))) < length (cities line_map)"
    by (simp add: line_map_def)
  have r: "sex_reach (itinerary tour_B) (itinerary tour_A) line_map (1, 2, [0, 1])"
    by (rule sex_reach.round [OF sex_reach.start l0 st])
  have l: "length [0, 1 :: nat] < length (cities line_map)"
    by (simp add: line_map_def)
  from sex_scans_in_range [OF b a r l] a b r l show ?thesis
    by blast
qed

lemma scan_same:
  assumes d: "distinct a" and j: "j < length a" and ij: "i = j \<or> i + 1 = j"
  shows "scan (take j a) a i = Inr j"
proof -
  have nj: "a ! j \<notin> set (take j a)"
  proof
    assume "a ! j \<in> set (take j a)"
    then obtain k where "k < j" "a ! k = a ! j"
      by (metis in_set_conv_nth length_take min_less_iff_conj nth_take)
    with d j show False by (simp add: nth_eq_iff_index_eq)
  qed
  have sj: "scan (take j a) a j = Inr j"
    using j nj by (subst scan.simps) simp
  show ?thesis
  proof (cases "i = j")
    case True
    with sj show ?thesis by simp
  next
    case False
    with ij have i: "i + 1 = j" by simp
    with j have "a ! i \<in> set (take j a)"
      by (metis in_set_conv_nth length_take less_add_one min_less_iff_conj nth_take
            order.strict_trans)
    with i j sj show ?thesis by (subst scan.simps) auto
  qed
qed

lemma sex_step_same:
  assumes va: "valid_itinerary mp a" and j: "1 \<le> j" "j < length a" and ij: "i = j \<or> i + 1 = j"
  shows "sex_step a a mp (i, j, take j a) = Inr (j, j + 1, take (j + 1) a)"
proof -
  note a = valid_itineraryD [OF va]
  have s1: "scan (take j a) a i = Inr j" by (rule scan_same [OF a(2) j(2) ij])
  have s2: "scan (take j a) a j = Inr j" by (rule scan_same [OF a(2) j(2)]) simp
  from j have "take j a \<noteq> []" by auto
  with j have "last (take j a) = a ! (j - 1)"
    by (simp add: last_conv_nth min_def)
  moreover from j a(3) have "a ! (j - 1) < length (cities mp)"
    by (metis atLeastLessThan_iff nth_mem less_imp_diff_less)
  ultimately have l: "last (take j a) < length (cities mp)" by simp
  from j a(3) have c: "a ! j < length (cities mp)" by (metis atLeastLessThan_iff nth_mem)
  from s1 s2 l c j show ?thesis
    by (simp add: sex_step_def distance_def take_Suc_conv_app_nth)
qed

lemma sex_loop_same:
  assumes va: "valid_itinerary mp a"
  shows "1 \<le> j \<Longrightarrow> j \<le> length a \<Longrightarrow> i = j \<or> i + 1 = j \<Longrightarrow>
         sex_loop a a mp (i, j, take j a) = Inr a"
proof (induction "length a - j" arbitrary: i j)
  case 0
  then have "j = length a" by simp
  with valid_itineraryD(1) [OF va] show ?case
    by (subst sex_loop.simps) simp
next
  case (Suc m)
  then have lt: "j < length a" by simp
  from sex_step_same [OF va Suc(3) lt Suc(5)]
  have st: "sex_step a a mp (i, j, take j a) = Inr (j, j + 1, take (j + 1) a)" .
  from Suc(2) have m: "m = length a - (j + 1)" by simp
  from Suc(1) [OF m, of j] lt have "sex_loop a a mp (j, j + 1, take (j + 1) a) = Inr a"
    by simp
  with st lt valid_itineraryD(1) [OF va] show ?case
    by (subst sex_loop.simps) simp
qed

text \<open>
  C7. For a tour \<open>a\<close> whose itinerary is a permutation of \<open>0, ..., n - 1\<close> that starts at city
  0, over a map of \<open>n\<close> cities, \<open>sex a a map\<close> returns a child whose itinerary is exactly the
  itinerary of \<open>a\<close>.
\<close>

theorem sex_same_parent:
  assumes "valid_itinerary mp (itinerary a)"
  shows "\<exists>child. sex a a mp = Inr child \<and> itinerary child = itinerary a"
proof -
  note a = valid_itineraryD [OF assms]
  from a have t: "take 1 (itinerary a) = [0]" by (cases "itinerary a") simp_all
  from a have "1 \<le> length (itinerary a)" by (cases "itinerary a") simp_all
  from sex_loop_same [OF assms _ this, of 1] t
  have lp: "sex_loop (itinerary a) (itinerary a) mp (1, 1, [0]) = Inr (itinerary a)"
    by simp
  from a(3) have "\<forall>c\<in>set (itinerary a). c < length (cities mp)" by simp
  from Tour_of_defined [OF a(4) this] lp show ?thesis
    by (auto simp: sex_def)
qed

theorem sex_same_parent_witness:
  "valid_itinerary line_map (itinerary tour_B) \<and>
   sex tour_B tour_B line_map = Inr tour_B \<and>
   (\<exists>child. sex tour_B tour_B line_map = Inr child \<and> itinerary child = itinerary tour_B)"
proof -
  note b = line_tours_valid(2)
  have e: "sex tour_B tour_B line_map = Inr tour_B"
    by (simp add: sex_def sex_loop.simps sex_step_def scan.simps Tour_of_def
        lengthOfItinerary_def lengthOfItinerary_loop.simps distance_def line_map_def
        distanceBetweenCities_def tour_B_def)
  from sex_same_parent [OF b] b e show ?thesis
    by blast
qed

text \<open>
  C2, as the code has it. In a round of the loop of \<open>sex\<close> in which both scans end on a
  candidate (neither parent is exhausted), the city appended is one of the two candidates
  and its distance to the last city of the itinerary is the smaller of the two distances.
  The candidate of \<open>a\<close> is appended only when it is strictly closer; when the candidate of
  \<open>b\<close> is at least as close, in particular when the two are equally close, the candidate
  of \<open>b\<close> is appended and the cursor of \<open>b\<close> advances.
\<close>

theorem sex_step_nearest:
  assumes "scan itin a i = Inr i'" "scan itin b j = Inr j'"
    and "distance mp (last itin) (a ! i') = Inr da"
    and "distance mp (last itin) (b ! j') = Inr db"
  shows "i' < length a \<and> j' < length b \<and>
         (\<exists>i2 j2 c. sex_step a b mp (i, j, itin) = Inr (i2, j2, itin @ [c]) \<and>
            distance mp (last itin) c = Inr (min da db) \<and>
            (da < db \<longrightarrow> c = a ! i' \<and> i2 = i' + 1 \<and> j2 = j') \<and>
            (db \<le> da \<longrightarrow> c = b ! j' \<and> i2 = i' \<and> j2 = j' + 1))"
proof -
  have r: "\<And>xs k k'. scan itin xs k = Inr k' \<Longrightarrow> k' < length xs"
  proof -
    fix xs k k' show "scan itin xs k = Inr k' \<Longrightarrow> k' < length xs"
      by (induction itin xs k rule: scan.induct)
         (subst (asm) (2) scan.simps, auto split: if_splits)
  qed
  from r [OF assms(1)] r [OF assms(2)] assms show ?thesis
    by (auto simp: sex_step_def min_def)
qed

theorem sex_step_nearest_witness:
  "scan [0] (itinerary tour_B) 1 = Inr 1 \<and> scan [0] (itinerary tour_A) 1 = Inr 1 \<and>
   distance line_map (last [0]) (itinerary tour_B ! 1) = Inr 2 \<and>
   distance line_map (last [0]) (itinerary tour_A ! 1) = Inr 1 \<and>
   sex_step (itinerary tour_B) (itinerary tour_A) line_map (1, 1, [0])
     = Inr (1, 2, [0, itinerary tour_A ! 1])"
proof -
  have s1: "scan [0] (itinerary tour_B) 1 = Inr 1"
    by (simp add: scan.simps tour_B_def)
  have s2: "scan [0] (itinerary tour_A) 1 = Inr 1"
    by (simp add: scan.simps tour_A_def)
  have d1: "distance line_map (last [0]) (itinerary tour_B ! 1) = Inr 2"
    by (simp add: distance_def line_map_def distanceBetweenCities_def tour_B_def)
  have d2: "distance line_map (last [0]) (itinerary tour_A ! 1) = Inr 1"
    by (simp add: distance_def line_map_def distanceBetweenCities_def tour_A_def)
  from sex_step_nearest [OF s1 s2 d1 d2]
  have "sex_step (itinerary tour_B) (itinerary tour_A) line_map (1, 1, [0])
          = Inr (1, 2, [0, itinerary tour_A ! 1])"
    by auto
  with s1 s2 d1 d2 show ?thesis by blast
qed

text \<open>
  The claim C2 as the specification words it fails: on \<open>corner_map\<close> the candidates of
  \<open>a = [0, 1, 2]\<close> and \<open>b = [0, 2, 1]\<close> in the first round are the cities 1 and 2, both at
  distance 1 from city 0, and the round appends city 2, the candidate of \<open>b\<close>; the child is
  \<open>[0, 2, 1]\<close>.
\<close>

theorem sex_step_tie_counterexample:
  "scan [0] [0, 1, 2] 1 = Inr 1 \<and> scan [0] [0, 2, 1] 1 = Inr 1 \<and>
   [0, 1, 2] ! 1 = (1 :: nat) \<and> [0, 2, 1] ! 1 = (2 :: nat) \<and>
   distance corner_map (last [0]) 1 = Inr 1 \<and>
   distance corner_map (last [0]) 2 = Inr 1 \<and>
   sex_step [0, 1, 2] [0, 2, 1] corner_map (1, 1, [0]) = Inr (1, 2, [0, 2]) \<and>
   sex_loop [0, 1, 2] [0, 2, 1] corner_map (1, 1, [0]) = Inr [0, 2, 1]"
  by (simp add: sex_loop.simps sex_step_def scan.simps distance_def corner_map_def
      distanceBetweenCities_def)

subsection \<open>The cached length\<close>

lemma Tour_of_cached:
  "Tour_of itin mp = Inr t \<Longrightarrow>
   itinerary t = itin \<and> lengthOfItinerary (itinerary t) mp = Inr (length' t)"
  by (auto simp: Tour_of_def split: sum.splits)

lemma mutate_cached:
  assumes "mutate RAND_MAX p mp t g = Some (Inr (k, t', g'))"
    and "lengthOfItinerary (itinerary t) mp = Inr (length' t)"
  shows "lengthOfItinerary (itinerary t') mp = Inr (length' t')"
proof (cases "fst (randomDouble RAND_MAX 0 1 g) > p")
  case True
  with assms show ?thesis
    by (simp add: mutate_def split: prod.splits)
next
  case False
  with assms(1) obtain itin l where
    "lengthOfItinerary itin mp = Inr l" "t' = \<lparr>itinerary = itin, length' = l\<rparr>"
    by (auto simp: mutate_def split: prod.splits sum.splits option.splits)
  then show ?thesis by simp
qed

text \<open>
  C9. The tour that a core operation returns has a cached length equal to the length
  recomputed from its itinerary (the distance from the first to the last city plus the
  distances of adjacent pairs): the random constructor, the constructor from an
  itinerary (which also stores that itinerary), \<open>sex\<close>, and \<open>mutate\<close> applied to a tour
  whose cached length was right.
\<close>

theorem cached_length_is_recomputed:
  "(Tour_random mp g = Inr (t1, g1) \<longrightarrow>
      lengthOfItinerary (itinerary t1) mp = Inr (length' t1)) \<and>
   (Tour_of itin mp = Inr t2 \<longrightarrow>
      itinerary t2 = itin \<and> lengthOfItinerary (itinerary t2) mp = Inr (length' t2)) \<and>
   (sex a b mp = Inr t3 \<longrightarrow>
      lengthOfItinerary (itinerary t3) mp = Inr (length' t3)) \<and>
   (mutate RAND_MAX p mp t g = Some (Inr (k, t4, g4)) \<and>
    lengthOfItinerary (itinerary t) mp = Inr (length' t) \<longrightarrow>
      lengthOfItinerary (itinerary t4) mp = Inr (length' t4))"
proof (intro conjI impI)
  assume "Tour_random mp g = Inr (t1, g1)"
  then obtain itin where "Tour_of itin mp = Inr t1"
    by (auto simp: Tour_random_def Let_def split: if_splits prod.splits sum.splits)
  then show "lengthOfItinerary (itinerary t1) mp = Inr (length' t1)"
    using Tour_of_cached by blast
next
  assume a: "Tour_of itin mp = Inr t2"
  show "itinerary t2 = itin" by (rule Tour_of_cached [OF a, THEN conjunct1])
  show "lengthOfItinerary (itinerary t2) mp = Inr (length' t2)"
    by (rule Tour_of_cached [OF a, THEN conjunct2])
next
  assume "sex a b mp = Inr t3"
  then obtain itin where "Tour_of itin mp = Inr t3"
    by (auto simp: sex_def split: sum.splits)
  then show "lengthOfItinerary (itinerary t3) mp = Inr (length' t3)"
    using Tour_of_cached by blast
next
  assume "mutate RAND_MAX p mp t g = Some (Inr (k, t4, g4)) \<and>
    lengthOfItinerary (itinerary t) mp = Inr (length' t)"
  then show "lengthOfItinerary (itinerary t4) mp = Inr (length' t4)"
    using mutate_cached by blast
qed

theorem cached_length_is_recomputed_witness:
  "Tour_random line_map (sconst 0) = Inr (\<lparr>itinerary = [0, 3, 1, 2], length' = 8\<rparr>, sconst 0) \<and>
   Tour_of [0, 2, 1, 3] line_map = Inr tour_B \<and>
   sex tour_B tour_A line_map = Inr tour_A \<and>
   mutate 2147483647 1 line_map tour_A (sconst 0) = Some (Inr (0, tour_B, sconst 0)) \<and>
   lengthOfItinerary [0, 3, 1, 2] line_map = Inr 8 \<and>
   lengthOfItinerary (itinerary tour_B) line_map = Inr (length' tour_B) \<and>
   lengthOfItinerary (itinerary tour_A) line_map = Inr (length' tour_A)"
proof -
  have e1: "Tour_random line_map (sconst 0)
              = Inr (\<lparr>itinerary = [0, 3, 1, 2], length' = 8\<rparr>, sconst 0)"
    by (simp add: Tour_random_def random_shuffle_def random_shuffle_loop.simps rand_def
        iter_swap_def Tour_of_def lengthOfItinerary_def lengthOfItinerary_loop.simps
        distance_def line_map_def distanceBetweenCities_def)
  have e2: "Tour_of [0, 2, 1, 3] line_map = Inr tour_B"
    by (simp add: Tour_of_def lengthOfItinerary_def lengthOfItinerary_loop.simps
        distance_def line_map_def distanceBetweenCities_def tour_B_def)
  have e3: "sex tour_B tour_A line_map = Inr tour_A"
    by (simp add: sex_def sex_loop.simps sex_step_def scan.simps Tour_of_def
        lengthOfItinerary_def lengthOfItinerary_loop.simps distance_def line_map_def
        distanceBetweenCities_def tour_A_def tour_B_def)
  note c = cached_length_is_recomputed
    [of line_map "sconst 0" "\<lparr>itinerary = [0, 3, 1, 2], length' = 8\<rparr>" "sconst 0"
        "[0, 2, 1, 3]" tour_B tour_B tour_A tour_A 2147483647 1 tour_A 0 tour_B "sconst 0"]
  from c e1 have l1: "lengthOfItinerary (itinerary \<lparr>itinerary = [0, 3, 1, 2], length' = 8\<rparr>) line_map
      = Inr (length' \<lparr>itinerary = [0, 3, 1, 2], length' = 8\<rparr>)"
    by blast
  from c e2 have l2: "lengthOfItinerary (itinerary tour_B) line_map = Inr (length' tour_B)"
    by blast
  from c e3 have l3: "lengthOfItinerary (itinerary tour_A) line_map = Inr (length' tour_A)"
    by blast
  have e4: "mutate 2147483647 1 line_map tour_A (sconst 0) = Some (Inr (0, tour_B, sconst 0))"
    by (simp add: mutate_def randomDouble_def rand_def randomIndex_def mutate_loop.simps
        iter_swap_def lengthOfItinerary_def lengthOfItinerary_loop.simps distance_def
        line_map_def distanceBetweenCities_def tour_A_def tour_B_def)
  from c e4 l3 have l4: "lengthOfItinerary (itinerary tour_B) line_map = Inr (length' tour_B)"
    by blast
  from l1 have l1': "lengthOfItinerary [0, 3, 1, 2] line_map = Inr 8"
    by simp
  from e1 e2 e3 e4 l1' l4 l3 show ?thesis
    by blast
qed

subsection \<open>Mutation\<close>

lemma randomIndex_range:
  assumes "unat a < unat b"
  shows "\<exists>r. randomIndex a b g = Inr (r, stl g) \<and> unat a \<le> unat r \<and> unat r < unat b"
proof -
  from assms have ab: "a < b" by (simp add: word_less_nat_alt)
  then have nz: "b - a \<noteq> 0" by simp
  have sub: "unat (b - a) = unat b - unat a"
    using ab by (simp add: unat_sub word_le_less_eq)
  let ?m = "word_of_nat (shd g) mod (b - a) :: u32"
  have "?m < b - a" using nz by (simp add: word_mod_less_divisor word_greater_zero_iff)
  then have m: "unat ?m < unat b - unat a" using sub by (simp add: word_less_nat_alt)
  have "unat b < 2 ^ 32"
    using unsigned_less [of b, where 'a = nat] by simp
  with m have "unat ?m + unat a < 2 ^ LENGTH(32)"
    by simp
  then have add: "unat (?m + a) = unat ?m + unat a"
    by (rule unat_add_lem [THEN iffD1])
  from nz add m show ?thesis
    by (simp add: randomIndex_def rand_def)
qed

lemma fair_draws_sdrop: "fair_draws g \<Longrightarrow> fair_draws (sdrop n g)"
  unfolding fair_draws_def
proof
  fix k assume a: "\<forall>k. \<exists>m. g !! (k + m) mod 3 \<noteq> 2"
  from a obtain m where "g !! ((n + k) + m) mod 3 \<noteq> 2" by blast
  then have "sdrop n g !! (k + m) mod 3 \<noteq> 2" by (simp add: sdrop_snth add.assoc)
  then show "\<exists>m. sdrop n g !! (k + m) mod 3 \<noteq> 2" by blast
qed

lemma mset_reverse_range: "i \<le> j \<Longrightarrow> mset (reverse_range i j xs) = mset xs"
proof -
  assume ij: "i \<le> j"
  have "take (j - i) (drop i xs) @ drop j xs = drop i xs"
    using ij by (metis append_take_drop_id drop_drop le_add_diff_inverse2)
  then have "mset (take (j - i) (drop i xs)) + mset (drop j xs) = mset (drop i xs)"
    by (metis mset_append)
  moreover have "mset (take i xs) + mset (drop i xs) = mset xs"
    by (metis append_take_drop_id mset_append)
  ultimately show ?thesis
    by (simp add: reverse_range_def add.assoc)
qed

lemma mset_rotate_range: "i \<le> k \<Longrightarrow> k \<le> j \<Longrightarrow> mset (rotate_range i k j xs) = mset xs"
proof -
  assume ik: "i \<le> k" and kj: "k \<le> j"
  have "take (j - k) (drop k xs) @ drop j xs = drop k xs"
    using kj by (metis append_take_drop_id drop_drop le_add_diff_inverse2)
  then have a: "mset (take (j - k) (drop k xs)) + mset (drop j xs) = mset (drop k xs)"
    by (metis mset_append)
  have "take (k - i) (drop i xs) @ drop k xs = drop i xs"
    using ik by (metis append_take_drop_id drop_drop le_add_diff_inverse2)
  then have b: "mset (take (k - i) (drop i xs)) + mset (drop k xs) = mset (drop i xs)"
    by (metis mset_append)
  have c: "mset (take i xs) + mset (drop i xs) = mset xs"
    by (metis append_take_drop_id mset_append)
  have "mset (rotate_range i k j xs) =
        mset (take i xs) + (mset (take (k - i) (drop i xs)) +
          (mset (take (j - k) (drop k xs)) + mset (drop j xs)))"
    by (simp add: rotate_range_def)
  with a b c show ?thesis by simp
qed

lemma first_kept:
  "1 \<le> i \<Longrightarrow> xs \<noteq> [] \<Longrightarrow> (take i xs @ ys) ! 0 = xs ! 0"
  by (cases xs; cases i) simp_all

lemma mutate_loop_now:
  assumes i: "1 \<le> unat i" "unat i < unat j" "unat j < length xs"
    and now: "shd g mod 3 \<noteq> 2 \<or> 2 < j - i"
  shows "\<exists>k xs' n. mutate_loop i j xs g = Some (Inr (k, xs', sdrop n g)) \<and>
           mset xs' = mset xs \<and> xs' ! 0 = xs ! 0"
proof -
  from i have ne: "xs \<noteq> []" by auto
  have s1: "stl g = sdrop 1 g" by simp
  have "shd g mod 3 = 0 \<or> shd g mod 3 = 1 \<or> shd g mod 3 = 2" by presburger
  with now consider (swap) "shd g mod 3 = 0" | (rev) "shd g mod 3 = 1"
    | (rot) "shd g mod 3 = 2" "2 < j - i"
    by auto
  then show ?thesis
  proof cases
    case swap
    then have "int (shd g) mod 3 = 0" by presburger
    with i have "mutate_loop i j xs g
        = Some (Inr (0, iter_swap (unat i) (unat j) xs, sdrop 1 g))"
      by (subst mutate_loop.simps) simp
    moreover have "mset (iter_swap (unat i) (unat j) xs) = mset xs"
      using i by (simp add: mset_iter_swap)
    moreover have "iter_swap (unat i) (unat j) xs ! 0 = xs ! 0"
      using i by (simp add: iter_swap_def)
    ultimately show ?thesis by blast
  next
    case rev
    then have "int (shd g) mod 3 = 1" by presburger
    with i have "mutate_loop i j xs g
        = Some (Inr (1, reverse_range (unat i) (unat j + 1) xs, sdrop 1 g))"
      by (subst mutate_loop.simps) simp
    moreover have "mset (reverse_range (unat i) (unat j + 1) xs) = mset xs"
      using i by (simp add: mset_reverse_range)
    moreover have "reverse_range (unat i) (unat j + 1) xs ! 0 = xs ! 0"
      unfolding reverse_range_def using i ne by (intro first_kept) simp_all
    ultimately show ?thesis by blast
  next
    case rot
    then have m2: "int (shd g) mod 3 \<noteq> 0" "int (shd g) mod 3 \<noteq> 1" by presburger+
    from i have ij: "i \<le> j" by (simp add: word_le_nat_alt)
    from rot(2) have "2 < unat (j - i)" by (simp add: word_less_nat_alt)
    with ij have gap: "unat i + 2 < unat j" by (simp add: unat_sub)
    have "unat i + 1 < 2 ^ LENGTH(32)"
      using gap unsigned_less [of j, where 'a = nat] by simp
    then have i1: "unat (i + 1) = unat i + 1"
      using unat_add_lem [of i 1] by simp
    with gap have "unat (i + 1) < unat j" by simp
    from randomIndex_range [OF this, of "stl g"] i1 obtain k where
      k: "randomIndex (i + 1) j (stl g) = Inr (k, stl (stl g))" "unat i + 1 \<le> unat k"
         "unat k < unat j"
      by auto
    have s2: "stl (stl g) = sdrop 2 g" by (simp add: numeral_2_eq_2)
    from m2 rot(2) k i have "mutate_loop i j xs g
        = Some (Inr (2, rotate_range (unat i) (unat k) (unat j + 1) xs, sdrop 2 g))"
      by (subst mutate_loop.simps) (simp add: s2)
    moreover have "mset (rotate_range (unat i) (unat k) (unat j + 1) xs) = mset xs"
      using k by (simp add: mset_rotate_range)
    moreover have "rotate_range (unat i) (unat k) (unat j + 1) xs ! 0 = xs ! 0"
      unfolding rotate_range_def using i ne by (intro first_kept) simp_all
    ultimately show ?thesis by blast
  qed
qed

lemma mutate_loop_returns:
  assumes i: "1 \<le> unat i" "unat i < unat j" "unat j < length xs"
  shows "(g !! m) mod 3 \<noteq> 2 \<Longrightarrow>
         \<exists>k xs' n. mutate_loop i j xs g = Some (Inr (k, xs', sdrop n g)) \<and>
           mset xs' = mset xs \<and> xs' ! 0 = xs ! 0"
proof (induction m arbitrary: g)
  case 0
  then have "shd g mod 3 \<noteq> 2 \<or> 2 < j - i" by simp
  from mutate_loop_now [OF i this] show ?case .
next
  case (Suc m)
  show ?case
  proof (cases "shd g mod 3 \<noteq> 2 \<or> 2 < j - i")
    case True
    from mutate_loop_now [OF i this] show ?thesis .
  next
    case False
    then have two: "shd g mod 3 = 2" and ng: "\<not> 2 < j - i" by simp_all
    from two have m2: "int (shd g) mod 3 \<noteq> 0" "int (shd g) mod 3 \<noteq> 1" by presburger+
    from Suc(2) have "(stl g !! m) mod 3 \<noteq> 2" by simp
    from Suc(1) [OF this] obtain k xs' n where
      r: "mutate_loop i j xs (stl g) = Some (Inr (k, xs', sdrop n (stl g)))"
         "mset xs' = mset xs" "xs' ! 0 = xs ! 0"
      by blast
    have sd: "sdrop n (stl g) = sdrop (Suc n) g" by simp
    have "mutate_loop i j xs g = mutate_loop i j xs (stl g)"
      by (subst mutate_loop.simps) (simp only: m2 ng if_False)
    with r(1) have "mutate_loop i j xs g = Some (Inr (k, xs', sdrop (Suc n) g))"
      by (simp only: sd)
    with r show ?thesis by blast
  qed
qed

lemma lengthOfItinerary_defined:
  assumes "itin \<noteq> []" "\<forall>c\<in>set itin. c < length (cities mp)"
  shows "\<exists>l. lengthOfItinerary itin mp = Inr l"
  using Tour_of_defined [OF assms] by (auto simp: Tour_of_def split: sum.splits)

lemma mutate_returns:
  assumes len: "3 \<le> length (itinerary t)" "length (itinerary t) < 2 ^ 32"
    and bd: "\<forall>c\<in>set (itinerary t). c < length (cities mp)"
    and fair: "fair_draws g"
  shows "\<exists>k t' n. mutate RAND_MAX p mp t g = Some (Inr (k, t', sdrop n g)) \<and>
           mset (itinerary t') = mset (itinerary t) \<and> itinerary t' ! 0 = itinerary t ! 0"
proof (cases "fst (randomDouble RAND_MAX 0 1 g) > p")
  case True
  then have "mutate RAND_MAX p mp t g = Some (Inr (- 1, t, sdrop 1 g))"
    by (simp add: mutate_def randomDouble_def rand_def)
  then show ?thesis by blast
next
  case False
  let ?xs = "itinerary t"
  let ?n = "length ?xs"
  have un: "unat (word_of_nat ?n :: u32) = ?n"
    using len(2) by (simp add: unat_of_nat)
  have "(1 :: u32) \<le> word_of_nat ?n"
    using len(1) un by (simp add: word_le_nat_alt)
  then have un1: "unat (word_of_nat ?n - 1 :: u32) = ?n - 1"
    using un by (simp add: unat_sub)
  have "unat (1 :: u32) < unat (word_of_nat ?n - 1 :: u32)"
    using len(1) un1 by simp
  from randomIndex_range [OF this, of "stl g"] un1 obtain i where
    i: "randomIndex 1 (word_of_nat ?n - 1) (stl g) = Inr (i, stl (stl g))"
       "1 \<le> unat i" "unat i < ?n - 1"
    by auto
  have "unat i + 1 < 2 ^ LENGTH(32)" using i(3) len(2) by simp
  then have i1: "unat (i + 1) = unat i + 1"
    using unat_add_lem [of i 1] by simp
  with i(3) un have "unat (i + 1) < unat (word_of_nat ?n :: u32)" by simp
  from randomIndex_range [OF this, of "stl (stl g)"] i1 un obtain j where
    j: "randomIndex (i + 1) (word_of_nat ?n) (stl (stl g)) = Inr (j, stl (stl (stl g)))"
       "unat i + 1 \<le> unat j" "unat j < ?n"
    by auto
  have g3: "stl (stl (stl g)) = sdrop 3 g" by (simp add: numeral_3_eq_3)
  from fair obtain m where "g !! (3 + m) mod 3 \<noteq> 2"
    unfolding fair_draws_def by blast
  then have "(sdrop 3 g !! m) mod 3 \<noteq> 2" by (simp add: sdrop_snth)
  from mutate_loop_returns [OF i(2) _ j(3) this] j(2) obtain k xs' n where
    ml: "mutate_loop i j ?xs (sdrop 3 g) = Some (Inr (k, xs', sdrop n (sdrop 3 g)))"
    and ms: "mset xs' = mset ?xs" and hd: "xs' ! 0 = ?xs ! 0"
    by auto
  from ms have "set xs' = set ?xs" by (metis set_mset_mset)
  moreover from ms len(1) have "xs' \<noteq> []" by auto
  ultimately obtain l where l: "lengthOfItinerary xs' mp = Inr l"
    using lengthOfItinerary_defined [of xs' mp] bd by auto
  have sd: "sdrop n (sdrop 3 g) = sdrop (3 + n) g" by (simp add: add.commute)
  from False i(1) j(1) ml l have
    "mutate RAND_MAX p mp t g
       = Some (Inr (k, \<lparr>itinerary = xs', length' = l\<rparr>, sdrop (3 + n) g))"
    by (simp add: mutate_def randomDouble_def rand_def g3 sd)
  with ms hd show ?thesis by fastforce
qed

lemma mutate_zero_probability_positive_draw:
  "0 < shd g \<Longrightarrow> 0 < RAND_MAX \<Longrightarrow> mutate RAND_MAX 0 mp t g = Some (Inr (- 1, t, stl g))"
  by (simp add: mutate_def randomDouble_def rand_def)

text \<open>
  C3 on the code. \<open>mutate\<close> skips the mutation when the draw \<^verbatim>\<open>randomDouble(0, 1)\<close> is greater
  than \<open>p\<close>. The draw is \<open>0\<close> when \<^verbatim>\<open>rand()\<close> returns \<open>0\<close>, and \<open>0 > 0\<close> is false: with \<open>p = 0\<close> and
  the draws \<open>0, 4, 6, 9\<close> the tour \<open>[0, 1, 2, 3]\<close> of length 6 becomes \<open>[0, 2, 1, 3]\<close> of length
  8 and the result is the kind \<open>0\<close> (a swap), not the sentinel \<open>-1\<close>. With a first draw other
  than \<open>0\<close> the call is the no-op that the claim states
  (\<open>mutate_zero_probability_positive_draw\<close>).
\<close>

theorem mutate_zero_probability_zero_draw:
  "mutate 2147483647 0 line_map tour_A ([0, 4, 6, 9] @- sconst 1)
     = Some (Inr (0, tour_B, sconst 1)) \<and>
   itinerary tour_B \<noteq> itinerary tour_A \<and> length' tour_B \<noteq> length' tour_A"
  by (simp add: mutate_def randomDouble_def rand_def randomIndex_def mutate_loop.simps
      iter_swap_def lengthOfItinerary_def lengthOfItinerary_loop.simps distance_def
      line_map_def distanceBetweenCities_def tour_A_def tour_B_def)

subsection \<open>One generation\<close>

lemma take_snoc_prefix:
  "take (length (xs @ [v])) zs = xs @ [v] \<Longrightarrow> take (length xs) zs = xs"
proof -
  assume a: "take (length (xs @ [v])) zs = xs @ [v]"
  have "take (length xs) (take (length (xs @ [v])) zs) = take (length xs) zs"
    by (simp add: min_def)
  with a show ?thesis by simp
qed

lemma evolve_loop_children:
  "evolve_loop depth mp ts children g = Inr (ts', children', g') \<Longrightarrow>
   length children \<le> length ts \<Longrightarrow>
   length children' = length ts \<and> take (length children) children' = children"
proof (induction depth mp ts children g rule: evolve_loop.induct)
  case (1 depth mp ts children g)
  show ?case
  proof (cases "length children < length ts")
    case False
    with "1.prems" show ?thesis
      by (subst (asm) evolve_loop.simps) auto
  next
    case True
    from "1.prems"(1) True obtain a ts1 g1 where fa: "findParent depth ts g = Inr (a, ts1, g1)"
      by (subst (asm) evolve_loop.simps) (auto split: sum.splits)
    from "1.prems"(1) True fa obtain b ts2 g2 where fb: "findParent depth ts1 g1 = Inr (b, ts2, g2)"
      by (subst (asm) evolve_loop.simps) (auto split: sum.splits)
    have len: "length ts2 = length ts"
      using findParent_length [OF fa] findParent_length [OF fb] by simp
    show ?thesis
    proof (cases "itinerary (ts2 ! a) \<noteq> itinerary (ts2 ! b)")
      case neq: True
      from "1.prems"(1) True fa fb neq obtain child where
        sx: "sex (ts2 ! a) (ts2 ! b) mp = Inr child" and
        rec: "evolve_loop depth mp ts2 (children @ [child]) g2 = Inr (ts', children', g')"
        by (subst (asm) evolve_loop.simps) (auto split: sum.splits)
      from "1.IH"(1) [OF True fa refl refl fb refl refl neq sx rec] True len
      have "length children' = length ts \<and>
            take (length (children @ [child])) children' = children @ [child]"
        by simp
      then show ?thesis using take_snoc_prefix [of children child children'] by simp
    next
      case eq: False
      from "1.prems"(1) True fa fb eq have
        rec: "evolve_loop depth mp ts2 (children @ [ts2 ! a]) g2 = Inr (ts', children', g')"
        by (subst (asm) evolve_loop.simps) (auto split: sum.splits)
      from "1.IH"(2) [OF True fa refl refl fb refl refl eq rec] True len
      have "length children' = length ts \<and>
            take (length (children @ [ts2 ! a])) children' = children @ [ts2 ! a]"
        by simp
      then show ?thesis using take_snoc_prefix [of children "ts2 ! a" children'] by simp
    qed
  qed
qed

lemma mutate_children_keeps:
  "mutate_children RAND_MAX p mp i children g = Some (Inr (children', g')) \<Longrightarrow>
   length children' = length children \<and> take i children' = take i children"
proof (induction RAND_MAX p mp i children g rule: mutate_children.induct)
  case (1 RAND_MAX p mp i children g)
  show ?case
  proof (cases "i < length children")
    case False
    with "1.prems" show ?thesis
      by (subst (asm) mutate_children.simps) auto
  next
    case True
    from "1.prems" True obtain k t g1 where
      mu: "mutate RAND_MAX p mp (children ! i) g = Some (Inr (k, t, g1))" and
      rec: "mutate_children RAND_MAX p mp (i + 1) (children[i := t]) g1 = Some (Inr (children', g'))"
      by (subst (asm) mutate_children.simps) (auto split: option.splits sum.splits)
    from "1.IH" [OF True mu refl refl refl rec]
    have l: "length children' = length children"
      and t: "take (i + 1) children' = take (i + 1) (children[i := t])" by simp_all
    have "take i (take (i + 1) children') = take i (take (i + 1) (children[i := t]))"
      using t by simp
    then have "take i children' = take i children"
      by (simp add: min_def)
    with l show ?thesis by simp
  qed
qed

lemma random_shuffle_loop_later:
  "\<exists>n. snd (random_shuffle_loop i xs g) = sdrop n g"
proof (induction i xs g rule: random_shuffle_loop.induct)
  case (1 i xs g)
  show ?case
  proof (cases "i < length xs")
    case False
    then have "snd (random_shuffle_loop i xs g) = sdrop 0 g"
      by (subst random_shuffle_loop.simps) simp
    then show ?thesis by blast
  next
    case True
    let ?j = "shd g mod (i + 1)"
    let ?ys = "if i \<noteq> ?j then iter_swap i ?j xs else xs"
    from "1.IH" [OF True, of "(shd g, stl g)" "shd g" "stl g" ?j] obtain n where
      n: "snd (random_shuffle_loop (i + 1) ?ys (stl g)) = sdrop n (stl g)"
      by (auto simp: rand_def)
    from True have "random_shuffle_loop i xs g = random_shuffle_loop (i + 1) ?ys (stl g)"
      by (subst random_shuffle_loop.simps) (simp add: rand_def Let_def)
    with n have "snd (random_shuffle_loop i xs g) = sdrop (Suc n) g" by simp
    then show ?thesis by blast
  qed
qed

lemma findParent_returns:
  assumes "depth \<le> length ts" "ts \<noteq> []"
  shows "\<exists>k ts1 n. findParent depth ts g = Inr (k, ts1, sdrop n g) \<and> mset ts1 = mset ts \<and>
           k < length ts1"
proof -
  obtain ts1 g1 where sh: "random_shuffle ts g = (ts1, g1)" by (cases "random_shuffle ts g")
  have m: "mset ts1 = mset ts" using mset_random_shuffle [of ts g] sh by simp
  then have l: "length ts1 = length ts" by (metis size_mset)
  from random_shuffle_loop_later [of 1 ts g] sh assms(2) obtain n where n: "g1 = sdrop n g"
    by (auto simp: random_shuffle_def)
  have "max_element ts1 0 depth < length ts1"
  proof (cases "depth = 0")
    case True
    with assms l show ?thesis by (simp add: max_element_def)
  next
    case False
    with max_element_least [of depth ts1] assms l show ?thesis by simp
  qed
  with sh l n assms have "findParent depth ts g = Inr (max_element ts1 0 depth, ts1, sdrop n g)"
    by (simp add: findParent_def)
  with m \<open>max_element ts1 0 depth < length ts1\<close> show ?thesis by blast
qed

lemma evolve_loop_returns:
  assumes d: "depth \<le> length ts0" and ne: "ts0 \<noteq> []"
    and v: "\<forall>t\<in>set ts0. valid_itinerary mp (itinerary t)"
  shows "mset ts = mset ts0 \<Longrightarrow> \<forall>t\<in>set children. valid_itinerary mp (itinerary t) \<Longrightarrow>
     \<exists>ts' children' n. evolve_loop depth mp ts children g = Inr (ts', children', sdrop n g) \<and>
        (\<forall>t\<in>set children'. valid_itinerary mp (itinerary t))"
proof (induction "length ts - length children" arbitrary: ts children g)
  case 0
  then have "\<not> length children < length ts" by simp
  then have "evolve_loop depth mp ts children g = Inr (ts, children, sdrop 0 g)"
    by (subst evolve_loop.simps) simp
  with 0(3) show ?case by blast
next
  case (Suc m)
  from Suc(3) have lts: "length ts = length ts0" by (metis size_mset)
  from Suc(3) have sts: "set ts = set ts0" by (metis set_mset_mset)
  from Suc(2) have lt: "length children < length ts" by simp
  from ne lts have tne: "ts \<noteq> []" by auto
  from d lts have dl: "depth \<le> length ts" by simp
  from findParent_returns [OF dl tne, of g] obtain a ts1 n1 where
    fa: "findParent depth ts g = Inr (a, ts1, sdrop n1 g)" and m1: "mset ts1 = mset ts"
    and a: "a < length ts1"
    by blast
  from m1 have l1: "length ts1 = length ts" by (metis size_mset)
  from dl l1 have dl1: "depth \<le> length ts1" by simp
  from tne l1 have tne1: "ts1 \<noteq> []" by auto
  from findParent_returns [OF dl1 tne1, of "sdrop n1 g"] obtain b ts2 n2 where
    fb: "findParent depth ts1 (sdrop n1 g) = Inr (b, ts2, sdrop n2 (sdrop n1 g))"
    and m2: "mset ts2 = mset ts1" and b: "b < length ts2"
    by blast
  from m2 have l2: "length ts2 = length ts1" by (metis size_mset)
  from m2 m1 Suc(3) have m20: "mset ts2 = mset ts0" by simp
  then have "set ts2 = set ts0" by (metis set_mset_mset)
  with a b l2 v have va: "valid_itinerary mp (itinerary (ts2 ! a))"
    and vb: "valid_itinerary mp (itinerary (ts2 ! b))"
    by (metis nth_mem)+
  have sd: "\<And>n3. sdrop n3 (sdrop n2 (sdrop n1 g)) = sdrop (n1 + n2 + n3) g"
    by (simp add: add.commute add.left_commute)
  show ?case
  proof (cases "itinerary (ts2 ! a) \<noteq> itinerary (ts2 ! b)")
    case True
    from sex_defined [OF va vb] obtain child where
      sx: "sex (ts2 ! a) (ts2 ! b) mp = Inr child" and vc: "valid_itinerary mp (itinerary child)"
      by blast
    from Suc(2) l1 l2 have "m = length ts2 - length (children @ [child])" by simp
    moreover from Suc(4) vc have "\<forall>t\<in>set (children @ [child]). valid_itinerary mp (itinerary t)"
      by simp
    ultimately obtain ts' children' n3 where
      r: "evolve_loop depth mp ts2 (children @ [child]) (sdrop n2 (sdrop n1 g))
            = Inr (ts', children', sdrop n3 (sdrop n2 (sdrop n1 g)))"
         "\<forall>t\<in>set children'. valid_itinerary mp (itinerary t)"
      using Suc(1) [of ts2 "children @ [child]" "sdrop n2 (sdrop n1 g)"] m20 by blast
    from lt fa fb True sx r(1) have
      "evolve_loop depth mp ts children g = Inr (ts', children', sdrop (n1 + n2 + n3) g)"
      by (subst evolve_loop.simps) (simp add: sd)
    with r(2) show ?thesis by blast
  next
    case False
    from Suc(2) l1 l2 have "m = length ts2 - length (children @ [ts2 ! a])" by simp
    moreover from Suc(4) va have "\<forall>t\<in>set (children @ [ts2 ! a]). valid_itinerary mp (itinerary t)"
      by simp
    ultimately obtain ts' children' n3 where
      r: "evolve_loop depth mp ts2 (children @ [ts2 ! a]) (sdrop n2 (sdrop n1 g))
            = Inr (ts', children', sdrop n3 (sdrop n2 (sdrop n1 g)))"
         "\<forall>t\<in>set children'. valid_itinerary mp (itinerary t)"
      using Suc(1) [of ts2 "children @ [ts2 ! a]" "sdrop n2 (sdrop n1 g)"] m20 by blast
    from lt fa fb False r(1) have
      "evolve_loop depth mp ts children g = Inr (ts', children', sdrop (n1 + n2 + n3) g)"
      by (subst evolve_loop.simps) (simp add: sd)
    with r(2) show ?thesis by blast
  qed
qed

lemma mutate_children_returns:
  assumes n: "3 \<le> length (cities mp)" "length (cities mp) < 2 ^ 32"
  shows "\<forall>t\<in>set children. valid_itinerary mp (itinerary t) \<Longrightarrow> fair_draws g \<Longrightarrow>
     \<exists>children' n. mutate_children RAND_MAX p mp i children g
          = Some (Inr (children', sdrop n g)) \<and>
        (\<forall>t\<in>set children'. valid_itinerary mp (itinerary t))"
proof (induction "length children - i" arbitrary: children i g)
  case 0
  then have "\<not> i < length children" by simp
  then have "mutate_children RAND_MAX p mp i children g = Some (Inr (children, sdrop 0 g))"
    by (subst mutate_children.simps) simp
  with 0(2) show ?case by blast
next
  case (Suc m)
  from Suc(2) have lt: "i < length children" by simp
  with Suc(3) have vt: "valid_itinerary mp (itinerary (children ! i))" by simp
  note d = valid_itineraryD [OF vt]
  from d(3) have bd: "\<forall>c\<in>set (itinerary (children ! i)). c < length (cities mp)" by simp
  from d(1) n have len: "3 \<le> length (itinerary (children ! i))"
    "length (itinerary (children ! i)) < 2 ^ 32" by simp_all
  from mutate_returns [OF len bd Suc(4), where RAND_MAX = RAND_MAX and p = p]
  obtain k t' n1 where
    mu: "mutate RAND_MAX p mp (children ! i) g = Some (Inr (k, t', sdrop n1 g))"
    and ms: "mset (itinerary t') = mset (itinerary (children ! i))"
    and hd: "itinerary t' ! 0 = itinerary (children ! i) ! 0"
    by blast
  from ms d(4) have "itinerary t' \<noteq> []" by auto
  with ms hd vt have vt': "valid_itinerary mp (itinerary t')"
    by (simp add: valid_itinerary_def)
  have "\<forall>t\<in>set (children[i := t']). valid_itinerary mp (itinerary t)"
    using Suc(3) vt' by (metis insert_iff set_update_subset_insert subsetD)
  moreover from Suc(2) have "m = length (children[i := t']) - (i + 1)" by simp
  moreover have "fair_draws (sdrop n1 g)" by (rule fair_draws_sdrop [OF Suc(4)])
  ultimately obtain children' n2 where
    r: "mutate_children RAND_MAX p mp (i + 1) (children[i := t']) (sdrop n1 g)
          = Some (Inr (children', sdrop n2 (sdrop n1 g)))"
       "\<forall>t\<in>set children'. valid_itinerary mp (itinerary t)"
    using Suc(1) [of "children[i := t']" "i + 1" "sdrop n1 g"] by blast
  have sd: "sdrop n2 (sdrop n1 g) = sdrop (n1 + n2) g"
    by (simp add: add.commute)
  from lt mu r(1) have
    "mutate_children RAND_MAX p mp i children g = Some (Inr (children', sdrop (n1 + n2) g))"
    by (subst mutate_children.simps) (simp add: sd)
  with r(2) show ?case by blast
qed

lemma evolve_returns:
  assumes wf: "wf_population pop" and d: "depth \<le> length (tours pop)" and fair: "fair_draws g"
  shows "\<exists>pop' n. evolve RAND_MAX p depth pop g = Some (Inr (pop', sdrop n g)) \<and>
           wf_population pop'"
proof -
  from wf have ne: "tours pop \<noteq> []" and n: "3 \<le> length (cities (map' pop))"
    "length (cities (map' pop)) < 2 ^ 32"
    and v: "\<forall>t\<in>set (tours pop). valid_itinerary (map' pop) (itinerary t)"
    by (simp_all add: wf_population_def)
  from fittest_least [OF ne] obtain f where f: "fittest pop = Inr f" "f \<in> set (tours pop)"
    by blast
  with v have "\<forall>t\<in>set [f]. valid_itinerary (map' pop) (itinerary t)" by simp
  from evolve_loop_returns [OF d ne v refl this, of g] obtain ts children n1 where
    el: "evolve_loop depth (map' pop) (tours pop) [f] g = Inr (ts, children, sdrop n1 g)"
    and vc: "\<forall>t\<in>set children. valid_itinerary (map' pop) (itinerary t)"
    by blast
  have "fair_draws (sdrop n1 g)" by (rule fair_draws_sdrop [OF fair])
  from mutate_children_returns [OF n vc this, where RAND_MAX = RAND_MAX and p = p and i = 1]
  obtain children' n2 where
    mc: "mutate_children RAND_MAX p (map' pop) 1 children (sdrop n1 g)
           = Some (Inr (children', sdrop n2 (sdrop n1 g)))"
    and vc': "\<forall>t\<in>set children'. valid_itinerary (map' pop) (itinerary t)"
    by blast
  have sd: "sdrop n2 (sdrop n1 g) = sdrop (n1 + n2) g"
    by (simp add: add.commute)
  from f(1) el mc have e:
    "evolve RAND_MAX p depth pop g = Some (Inr (pop\<lparr>tours := children'\<rparr>, sdrop (n1 + n2) g))"
    by (simp add: evolve_def sd)
  from evolve_loop_children [OF el] ne have "length children = length (tours pop)"
    by (cases "tours pop") simp_all
  with mutate_children_keeps [OF mc] ne have "children' \<noteq> []" by auto
  with n vc' have "wf_population (pop\<lparr>tours := children'\<rparr>)"
    by (simp add: wf_population_def)
  with e show ?thesis by blast
qed

lemma evolve_partial:
  assumes "evolve RAND_MAX p_mutate depth pop g = Some (Inr (pop', g'))"
  shows "length (tours pop') = length (tours pop) \<and>
         (\<exists>f f'. fittest pop = Inr f \<and> fittest pop' = Inr f' \<and> length' f' \<le> length' f)"
proof -
  from assms obtain f where ft: "fittest pop = Inr f"
    by (auto simp: evolve_def split: sum.splits)
  from assms ft obtain ts children g1 where
    el: "evolve_loop depth (map' pop) (tours pop) [f] g = Inr (ts, children, g1)"
    by (auto simp: evolve_def split: sum.splits)
  from assms ft el obtain children' where
    mc: "mutate_children RAND_MAX p_mutate (map' pop) 1 children g1 = Some (Inr (children', g'))"
    and pop': "pop' = pop\<lparr>tours := children'\<rparr>"
    by (auto simp: evolve_def split: sum.splits option.splits)
  from ft have ne: "tours pop \<noteq> []"
    by (auto simp: fittest_def Let_def split: if_splits)
  then have "length [f] \<le> length (tours pop)"
    by (cases "tours pop") simp_all
  from evolve_loop_children [OF el this]
  have lc: "length children = length (tours pop)" and hc: "take 1 children = [f]" by simp_all
  from mutate_children_keeps [OF mc]
  have lc': "length children' = length children" and hc': "take 1 children' = take 1 children"
    by simp_all
  from hc hc' have "take 1 children' = [f]" by simp
  then have fin: "f \<in> set children'" by (metis in_set_takeD list.set_intros(1))
  from lc lc' ne have "tours pop' \<noteq> []" using pop' by auto
  from fittest_least [OF this] obtain f' where
    "fittest pop' = Inr f'" "\<forall>t\<in>set (tours pop'). length' f' \<le> length' t" by blast
  with fin pop' ft lc lc' show ?thesis by auto
qed

text \<open>
  C1. Whenever a call of \<open>evolve\<close> returns, the number of tours is the one before the
  call, and the length of the fittest tour after the call is at most the length of the
  fittest tour before it. On a well-formed population, with a depth between 1 and the
  number of tours and a fair stream of draws, the call does return, and the population
  that it leaves is well formed again.
\<close>

theorem evolve_size_and_fittest:
  "(evolve RAND_MAX p_mutate depth pop g = Some (Inr (pop', g')) \<longrightarrow>
      length (tours pop') = length (tours pop) \<and>
      (\<exists>f f'. fittest pop = Inr f \<and> fittest pop' = Inr f' \<and> length' f' \<le> length' f)) \<and>
   (wf_population pop \<and> 1 \<le> depth \<and> depth \<le> length (tours pop) \<and> fair_draws g \<longrightarrow>
      (\<exists>pop2 g2. evolve RAND_MAX p_mutate depth pop g = Some (Inr (pop2, g2)) \<and>
         wf_population pop2))"
  using evolve_partial [of RAND_MAX p_mutate depth pop g pop' g']
    evolve_returns [of pop depth g RAND_MAX p_mutate]
  by blast

theorem evolve_size_and_fittest_witness:
  "evolve 2147483647 0.3 2 line_population (sconst 0)
     = Some (Inr (\<lparr>map' = line_map, tours = [tour_A, tour_B]\<rparr>, sconst 0)) \<and>
   length (tours \<lparr>map' = line_map, tours = [tour_A, tour_B]\<rparr>) = length (tours line_population) \<and>
   fittest line_population = Inr tour_A \<and>
   fittest \<lparr>map' = line_map, tours = [tour_A, tour_B]\<rparr> = Inr tour_A \<and>
   length' tour_A \<le> length' tour_A \<and>
   wf_population line_population \<and> (1 :: nat) \<le> 2 \<and> 2 \<le> length (tours line_population) \<and>
   fair_draws (sconst 0) \<and>
   wf_population \<lparr>map' = line_map, tours = [tour_A, tour_B]\<rparr>"
proof -
  have e: "evolve 2147483647 0.3 2 line_population (sconst 0)
             = Some (Inr (\<lparr>map' = line_map, tours = [tour_A, tour_B]\<rparr>, sconst 0))"
    by (simp add: line_population_def evolve_def fittest_def findParent_def random_shuffle_def
        random_shuffle_loop.simps rand_def iter_swap_def max_element_def
        max_element_loop.simps Tour_less_def tour_A_def tour_B_def evolve_loop.simps
        mutate_children.simps mutate_def randomDouble_def randomIndex_def mutate_loop.simps
        sex_def sex_loop.simps sex_step_def scan.simps Tour_of_def lengthOfItinerary_def
        lengthOfItinerary_loop.simps distance_def line_map_def distanceBetweenCities_def)
  have f1: "fittest line_population = Inr tour_A"
    by (simp add: line_population_def fittest_def max_element_def max_element_loop.simps
        Tour_less_def tour_A_def tour_B_def)
  have f2: "fittest \<lparr>map' = line_map, tours = [tour_A, tour_B]\<rparr> = Inr tour_A"
    by (simp add: fittest_def max_element_def max_element_loop.simps
        Tour_less_def tour_A_def tour_B_def)
  have w: "wf_population line_population"
    using line_tours_valid by (simp add: wf_population_def line_population_def line_map_def)
  have d: "(1 :: nat) \<le> 2 \<and> 2 \<le> length (tours line_population)"
    by (simp add: line_population_def)
  have f: "fair_draws (sconst 0)"
    by (simp add: fair_draws_def)
  note c = evolve_size_and_fittest [of 2147483647 "0.3" 2 line_population "sconst 0"
      "\<lparr>map' = line_map, tours = [tour_A, tour_B]\<rparr>" "sconst 0"]
  from c e f1 f2 have p: "length (tours \<lparr>map' = line_map, tours = [tour_A, tour_B]\<rparr>)
        = length (tours line_population) \<and> length' tour_A \<le> length' tour_A"
    by force
  from c e w d f have w2: "wf_population \<lparr>map' = line_map, tours = [tour_A, tour_B]\<rparr>"
    by force
  from e p f1 f2 w d f w2 show ?thesis by blast
qed

text \<open>
  C4 on the code. \<open>findParent\<close> returns a reference into \<^verbatim>\<open>tours\<close> and shuffles \<^verbatim>\<open>tours\<close> in
  place, so the second call changes the tour that the first reference denotes. In the
  population \<open>[tour_B, tour_A]\<close> with depth 1 and the draws \<open>0, 0\<close>: the first selection
  returns position 0 of \<open>[tour_A, tour_B]\<close>, that is \<open>tour_A\<close>; the second returns position 0
  of \<open>[tour_B, tour_A]\<close>, that is \<open>tour_B\<close>. The two selected tours differ and their
  crossover is \<open>tour_A\<close>, but both references now denote \<open>tour_B\<close>, and the child that the
  loop appends is a copy of \<open>tour_B\<close>.
\<close>

theorem evolve_loop_parent_aliasing:
  "findParent 1 [tour_B, tour_A] (sconst 0) = Inr (0, [tour_A, tour_B], sconst 0) \<and>
   findParent 1 [tour_A, tour_B] (sconst 0) = Inr (0, [tour_B, tour_A], sconst 0) \<and>
   itinerary ([tour_A, tour_B] ! 0) \<noteq> itinerary ([tour_B, tour_A] ! 0) \<and>
   sex ([tour_A, tour_B] ! 0) ([tour_B, tour_A] ! 0) line_map = Inr tour_A \<and>
   evolve_loop 1 line_map [tour_B, tour_A] [tour_A] (sconst 0)
     = Inr ([tour_B, tour_A], [tour_A, tour_B], sconst 0) \<and>
   tour_B \<noteq> tour_A"
  by (simp add: findParent_def random_shuffle_def random_shuffle_loop.simps rand_def
      iter_swap_def max_element_def max_element_loop.simps Tour_less_def tour_A_def
      tour_B_def evolve_loop.simps sex_def sex_loop.simps sex_step_def scan.simps
      Tour_of_def lengthOfItinerary_def lengthOfItinerary_loop.simps distance_def
      line_map_def distanceBetweenCities_def)

subsection \<open>The constructor of Map\<close>

lemma City_random_Inr:
  "City_random w h g = Inr (c, g1) \<Longrightarrow> w \<noteq> 0 \<and> h \<noteq> 0 \<and> x c < w \<and> y c < h"
  by (auto simp: City_random_def rand_def Let_def word_mod_less_divisor word_greater_zero_iff
      split: if_splits)

lemma City_random_Inl:
  "City_random w h g = Inl e \<Longrightarrow> e = DivByZero \<and> (w = 0 \<or> h = 0)"
  by (auto simp: City_random_def rand_def Let_def split: if_splits)

lemma Map_loop_sound:
  assumes "Map_loop w h n cs g = Some r"
  shows "Map_post w h n cs r"
proof (rule Map_loop.raw_induct [where P = "\<lambda>w h n cs g r. Map_post w h n cs r", OF _ assms])
  fix loop :: "u32 \<Rightarrow> u32 \<Rightarrow> nat \<Rightarrow> City list \<Rightarrow> rng \<Rightarrow> (error + (City list \<times> rng)) option"
  fix w h n cs g r
  assume IH: "\<And>w h n cs g r. loop w h n cs g = Some r \<Longrightarrow> Map_post w h n cs r"
  assume body: "(if length cs < n
      then case City_random w h g of Inl e \<Rightarrow> Some (Inl e)
           | Inr (city, g1) \<Rightarrow>
               if city \<notin> set cs then loop w h n (cs @ [city]) g1
               else loop w h n cs g1
      else Some (Inr (cs, g))) = Some r"
  show "Map_post w h n cs r"
  proof (cases "length cs < n")
    case False
    with body have "r = Inr (cs, g)" by simp
    with False show ?thesis by (simp add: Map_post_def)
  next
    case True
    show ?thesis
    proof (cases "City_random w h g")
      case (Inl e)
      with body True have "r = Inl e" by simp
      with City_random_Inl [OF Inl] show ?thesis by (simp add: Map_post_def)
    next
      case (Inr p)
      obtain city g1 where p: "p = (city, g1)" by (cases p)
      note cr = City_random_Inr [OF Inr [unfolded p]]
      show ?thesis
      proof (cases "city \<in> set cs")
        case in_cs: True
        with body True Inr p have "loop w h n cs g1 = Some r" by simp
        from IH [OF this] show ?thesis .
      next
        case False
        with body True Inr p have "loop w h n (cs @ [city]) g1 = Some r" by simp
        from IH [OF this] False cr True show ?thesis
          by (simp add: Map_post_def)
      qed
    qed
  qed
qed

lemma cities_in_box:
  fixes cs :: "City list"
  assumes "distinct cs" "\<forall>c\<in>set cs. x c < w \<and> y c < h"
  shows "length cs \<le> unat w * unat h"
proof -
  let ?f = "\<lambda>c::City. (unat (x c), unat (y c))"
  have inj: "inj_on ?f (set cs)"
  proof (rule inj_onI)
    fix c c' :: City
    assume "?f c = ?f c'"
    then show "c = c'" by (cases c, cases c') (simp add: word_unat_eq_iff)
  qed
  have sub: "?f ` set cs \<subseteq> {..<unat w} \<times> {..<unat h}"
    using assms(2) by (auto simp: word_less_nat_alt)
  have "length cs = card (set cs)" using assms(1) by (simp add: distinct_card)
  also have "\<dots> = card (?f ` set cs)" using inj by (simp add: card_image)
  also have "\<dots> \<le> card ({..<unat w} \<times> {..<unat h})"
    using sub by (intro card_mono) auto
  also have "\<dots> = unat w * unat h" by simp
  finally show ?thesis .
qed

text \<open>
  C5, as the code has it. The constructor checks nothing and reports no error of
  configuration. With a count of 0 it returns the empty map. With a positive count and a
  width or a height of 0 the first draw divides by zero. Whenever it returns a map, the
  map holds exactly \<open>n\<close> pairwise distinct cities inside the box. With a positive width and
  height and \<open>n > width * height\<close> it never returns.
\<close>

theorem Map_new_unguarded:
  "Map_new w h 0 g = Some (Inr (\<lparr>cities = [], width = w, height = h\<rparr>, g)) \<and>
   (0 < n \<and> (w = 0 \<or> h = 0) \<longrightarrow> Map_new w h n g = Some (Inl DivByZero)) \<and>
   (\<forall>mp g'. Map_new w h n g = Some (Inr (mp, g')) \<longrightarrow>
      length (cities mp) = unat n \<and> distinct (cities mp) \<and>
      (\<forall>c\<in>set (cities mp). x c < w \<and> y c < h)) \<and>
   (w \<noteq> 0 \<and> h \<noteq> 0 \<and> unat w * unat h < unat n \<longrightarrow> Map_new w h n g = None)"
proof (intro conjI)
  show "Map_new w h 0 g = Some (Inr (\<lparr>cities = [], width = w, height = h\<rparr>, g))"
    by (simp add: Map_new_def Map_loop.simps [of w h 0])
  show "0 < n \<and> (w = 0 \<or> h = 0) \<longrightarrow> Map_new w h n g = Some (Inl DivByZero)"
  proof (intro impI)
    assume a: "0 < n \<and> (w = 0 \<or> h = 0)"
    then have "City_random w h g = Inl DivByZero"
      by (auto simp: City_random_def rand_def Let_def)
    moreover from a have "0 < unat n" by (simp add: unat_gt_0 word_greater_zero_iff)
    ultimately have "Map_loop w h (unat n) [] g = Some (Inl DivByZero)"
      by (subst Map_loop.simps) simp
    then show "Map_new w h n g = Some (Inl DivByZero)"
      by (simp add: Map_new_def)
  qed
  have sound: "\<And>r. Map_loop w h (unat n) [] g = Some r \<Longrightarrow>
     (case r of
        Inl e \<Rightarrow> e = DivByZero \<and> (w = 0 \<or> h = 0)
      | Inr (cs', g') \<Rightarrow> length cs' = unat n \<and> distinct cs' \<and> (\<forall>c\<in>set cs'. x c < w \<and> y c < h))"
    using Map_loop_sound [of w h "unat n" "[]" g] by (simp add: Map_post_def)
  show "\<forall>mp g'. Map_new w h n g = Some (Inr (mp, g')) \<longrightarrow>
      length (cities mp) = unat n \<and> distinct (cities mp) \<and>
      (\<forall>c\<in>set (cities mp). x c < w \<and> y c < h)"
  proof (intro allI impI)
    fix mp g' assume a: "Map_new w h n g = Some (Inr (mp, g'))"
    then obtain cs where "Map_loop w h (unat n) [] g = Some (Inr (cs, g'))" "cities mp = cs"
      by (auto simp: Map_new_def split: option.splits sum.splits)
    with sound [of "Inr (cs, g')"] show "length (cities mp) = unat n \<and> distinct (cities mp) \<and>
      (\<forall>c\<in>set (cities mp). x c < w \<and> y c < h)" by simp
  qed
  show "w \<noteq> 0 \<and> h \<noteq> 0 \<and> unat w * unat h < unat n \<longrightarrow> Map_new w h n g = None"
  proof (intro impI)
    assume a: "w \<noteq> 0 \<and> h \<noteq> 0 \<and> unat w * unat h < unat n"
    show "Map_new w h n g = None"
    proof (cases "Map_loop w h (unat n) [] g")
      case None
      then show ?thesis by (simp add: Map_new_def)
    next
      case (Some r)
      show ?thesis
      proof (cases r)
        case (Inl e)
        with sound [OF Some] a show ?thesis by simp
      next
        case (Inr p)
        obtain cs g' where p: "p = (cs, g')" by (cases p)
        with sound [OF Some] Inr have "length cs = unat n" "distinct cs"
          "\<forall>c\<in>set cs. x c < w \<and> y c < h" by simp_all
        with cities_in_box [of cs w h] a show ?thesis by simp
      qed
    qed
  qed
qed

theorem Map_new_unguarded_witness:
  "Map_new 1 1 0 (sconst 0) = Some (Inr (\<lparr>cities = [], width = 1, height = 1\<rparr>, sconst 0)) \<and>
   Map_new 0 1 1 (sconst 0) = Some (Inl DivByZero) \<and>
   Map_new 1 1 1 (sconst 0)
     = Some (Inr (\<lparr>cities = [\<lparr>x = 0, y = 0\<rparr>], width = 1, height = 1\<rparr>, sconst 0)) \<and>
   length (cities \<lparr>cities = [\<lparr>x = 0, y = 0\<rparr>], width = 1, height = 1\<rparr>) = unat (1 :: u32) \<and>
   distinct (cities \<lparr>cities = [\<lparr>x = 0, y = 0\<rparr>], width = 1, height = 1\<rparr>) \<and>
   Map_new 1 1 2 (sconst 0) = None"
proof -
  have e: "Map_new 1 1 1 (sconst 0)
             = Some (Inr (\<lparr>cities = [\<lparr>x = 0, y = 0\<rparr>], width = 1, height = 1\<rparr>, sconst 0))"
    by (simp add: Map_new_def Map_loop.simps City_random_def rand_def)
  note one = Map_new_unguarded [of 1 1 "sconst 0" 1]
  from one have z0: "Map_new 1 1 0 (sconst 0)
      = Some (Inr (\<lparr>cities = [], width = 1, height = 1\<rparr>, sconst 0))"
    by blast
  from one e have p:
    "length (cities \<lparr>cities = [\<lparr>x = 0, y = 0\<rparr>], width = 1, height = 1\<rparr>) = unat (1 :: u32) \<and>
     distinct (cities \<lparr>cities = [\<lparr>x = 0, y = 0\<rparr>], width = 1, height = 1\<rparr>)"
    by blast
  from Map_new_unguarded [of 0 1 "sconst 0" 1] have z: "Map_new 0 1 1 (sconst 0) = Some (Inl DivByZero)"
    by simp
  from Map_new_unguarded [of 1 1 "sconst 0" 2] have n: "Map_new 1 1 2 (sconst 0) = None"
    by simp
  from z0 z e p n show ?thesis by blast
qed

text \<open>
  The claim C5 as the specification words it fails: asked for two cities in a box of one
  point, the constructor reports nothing and never returns.
\<close>

theorem Map_new_counterexample:
  "Map_new 1 1 2 (sconst 0) = None \<and>
   Map_new 1 1 0 (sconst 0) = Some (Inr (\<lparr>cities = [], width = 1, height = 1\<rparr>, sconst 0))"
proof -
  have sound: "\<And>r. Map_loop 1 1 2 [] (sconst 0) = Some r \<Longrightarrow> Map_post 1 1 2 [] r"
    by (rule Map_loop_sound)
  have "Map_loop 1 1 2 [] (sconst 0) = None"
  proof (cases "Map_loop 1 1 2 [] (sconst 0)")
    case None
    then show ?thesis .
  next
    case (Some r)
    show ?thesis
    proof (cases r)
      case (Inl e)
      with sound [OF Some] show ?thesis by (simp add: Map_post_def)
    next
      case (Inr p)
      obtain cs g' where p: "p = (cs, g')" by (cases p)
      with sound [OF Some] Inr have "length cs = 2" "distinct cs"
        "\<forall>c\<in>set cs. x c < 1 \<and> y c < 1" by (simp_all add: Map_post_def)
      with cities_in_box [of cs 1 1] show ?thesis by simp
    qed
  qed
  then have "Map_new 1 1 2 (sconst 0) = None"
    by (simp add: Map_new_def)
  moreover have "Map_new 1 1 0 (sconst 0)
      = Some (Inr (\<lparr>cities = [], width = 1, height = 1\<rparr>, sconst 0))"
    by (simp add: Map_new_def Map_loop.simps [of 1 1 0])
  ultimately show ?thesis by simp
qed

subsection \<open>The constructor of Population\<close>

text \<open>
  A population that the constructor returns, for at least three cities and at least one
  tour, is well formed.
\<close>

lemma Tour_random_valid:
  assumes "Tour_random mp g = Inr (t, g')"
  shows "valid_itinerary mp (itinerary t)"
proof -
  define xs where "xs = [0..<length (cities mp)]"
  from assms have ne: "xs \<noteq> []"
    by (auto simp: Tour_random_def Let_def xs_def split: if_splits)
  obtain ys g1 where sh: "random_shuffle (tl xs) g = (ys, g1)"
    by (cases "random_shuffle (tl xs) g")
  from assms ne sh have "Tour_of (hd xs # ys) mp = Inr t"
    unfolding Tour_random_def Let_def xs_def [symmetric] by (auto split: sum.splits)
  then have it: "itinerary t = hd xs # ys"
    by (auto simp: Tour_of_def split: sum.splits)
  from mset_random_shuffle [of "tl xs" g] sh have "mset ys = mset (tl xs)" by simp
  then have "mset (hd xs # ys) = mset (hd xs # tl xs)" by simp
  with ne have m: "mset (hd xs # ys) = mset xs" by simp
  from ne have "hd xs = 0" unfolding xs_def by simp
  with m it show ?thesis unfolding xs_def by (simp add: valid_itinerary_def)
qed

lemma Population_loop_valid:
  "Population_loop mp n ts g = Inr (ts', g') \<Longrightarrow> length ts \<le> n \<Longrightarrow>
   \<forall>t\<in>set ts. valid_itinerary mp (itinerary t) \<Longrightarrow>
   length ts' = n \<and> (\<forall>t\<in>set ts'. valid_itinerary mp (itinerary t))"
proof (induction mp n ts g rule: Population_loop.induct)
  case (1 mp n ts g)
  show ?case
  proof (cases "length ts < n")
    case False
    with "1.prems" show ?thesis
      by (subst (asm) Population_loop.simps) auto
  next
    case True
    from "1.prems"(1) True obtain t g1 where
      tr: "Tour_random mp g = Inr (t, g1)" and
      rec: "Population_loop mp n (ts @ [t]) g1 = Inr (ts', g')"
      by (subst (asm) Population_loop.simps) (auto split: sum.splits)
    from Tour_random_valid [OF tr] "1.prems"(3)
    have "\<forall>t\<in>set (ts @ [t]). valid_itinerary mp (itinerary t)" by simp
    moreover from True have "length (ts @ [t]) \<le> n" by simp
    ultimately show ?thesis using "1.IH" [OF True tr refl rec] by blast
  qed
qed

lemma Population_new_wf:
  assumes "Population_new w h n_cities n_tours g = Some (Inr (pop, g'))"
    and "3 \<le> unat n_cities" "0 < unat n_tours"
  shows "wf_population pop \<and> length (tours pop) = unat n_tours"
proof -
  from assms(1) obtain mp g1 where
    mn: "Map_new w h n_cities g = Some (Inr (mp, g1))" and
    pl: "Population_loop mp (unat n_tours) [] g1 = Inr (tours pop, g')" and
    mp: "map' pop = mp"
    by (auto simp: Population_new_def split: option.splits sum.splits)
  from mn obtain cs where "Map_loop w h (unat n_cities) [] g = Some (Inr (cs, g1))"
    "cities mp = cs"
    by (auto simp: Map_new_def split: option.splits sum.splits)
  with Map_loop_sound [of w h "unat n_cities" "[]" g "Inr (cs, g1)"]
  have n: "length (cities mp) = unat n_cities"
    by (simp add: Map_post_def)
  have "unat n_cities < 2 ^ 32"
    using unsigned_less [of n_cities, where 'a = nat] by simp
  with Population_loop_valid [OF pl] assms(2,3) n mp show ?thesis
    by (auto simp: wf_population_def)
qed

end
